theory Spec2Isabelle
  imports Main "HOL-Library.Word"
begin

unbundle bit_operations_syntax

chapter \<open>The embedding\<close>

section \<open>Kernel-wide conventions\<close>

text \<open>
  A kernel routine either halts the machine (a failed \<open>KASSERT\<close>, a \<open>panic\<close>, or a
  dereference of a null or wild pointer) or returns. Halting is the left summand of every
  result type below; the message of a panic is the one of the source.
\<close>

datatype halt = Panic string | Fault

text \<open>The values of \<open>errorcode_t\<close> that the modelled routines return.\<close>

datatype errorcode = Success | UNKNOWN | BAD_ADDRESS | BAD_LENGTH | SHORT_READ | IO

section \<open>Scheduler (kernel/kern/scheduler.c)\<close>

text \<open>
  The flag word of a thread is a bit mask; the bits are kept as a set of flags, so that
  \<open>flags & (A | B)\<close> is an intersection, \<open>flags |= A\<close> an insertion and
  \<open>flags &= ~A\<close> a removal.
\<close>

datatype thread_flag =
  THREAD_FLAG_ACTIVE | THREAD_FLAG_SUSPENDED | THREAD_FLAG_KTHREAD | THREAD_FLAG_ZOMBIE

record THREAD =
  thr_flags :: "thread_flag set"
  thr_next :: "nat option"

text \<open>
  Threads live in memory at addresses (\<open>nat\<close>); a pointer is \<open>None\<close> when null.
  \<open>threads\<close> is the head of the global list, \<open>pcpu_curthread\<close> and
  \<open>pcpu_idlethread_ptr\<close> are the per-CPU fields read by \<open>PCPU_GET\<close>.
\<close>

record sched =
  threads :: "nat option"
  thread_mem :: "nat \<Rightarrow> THREAD"
  pcpu_curthread :: "nat option"
  pcpu_idlethread_ptr :: "nat option"

definition thread_clear_active :: "sched \<Rightarrow> nat \<Rightarrow> sched" where
  "thread_clear_active s c =
     s\<lparr>thread_mem := (thread_mem s)
         (c := (thread_mem s c)\<lparr>thr_flags := thr_flags (thread_mem s c) - {THREAD_FLAG_ACTIVE}\<rparr>)\<rparr>"

definition thread_set_active :: "sched \<Rightarrow> nat \<Rightarrow> sched" where
  "thread_set_active s n =
     s\<lparr>thread_mem := (thread_mem s)
         (n := (thread_mem s n)\<lparr>thr_flags := insert THREAD_FLAG_ACTIVE (thr_flags (thread_mem s n))\<rparr>)\<rparr>"

definition thread_busy :: "sched \<Rightarrow> nat \<Rightarrow> bool" where
  "thread_busy s t \<longleftrightarrow>
     thr_flags (thread_mem s t) \<inter> {THREAD_FLAG_ACTIVE, THREAD_FLAG_SUSPENDED} \<noteq> {}"

text \<open>
  The scanning loop of \<open>schedule\<close>. It returns the value of \<open>newthread\<close> when the
  loop is left, by its condition or by one of the two \<open>break\<close>s. The loop has no bound
  of its own, so it is a partial function: \<open>None\<close> is a scan that never ends.
\<close>

partial_function (option) schedule_scan ::
  "sched \<Rightarrow> nat option \<Rightarrow> nat option \<Rightarrow> (halt + nat option) option"
where
  "schedule_scan s curthread newthread =
     (case newthread of
        None \<Rightarrow> Some (Inl Fault)
      | Some t \<Rightarrow>
          if \<not> thread_busy s t then Some (Inr newthread)
          else if thr_next (thread_mem s t) = curthread
            then Some (Inr (thr_next (thread_mem s t)))
          else if (if thr_next (thread_mem s t) = None then threads s
                   else thr_next (thread_mem s t)) = curthread
            then Some (Inr curthread)
          else schedule_scan s curthread
                 (if thr_next (thread_mem s t) = None then threads s
                  else thr_next (thread_mem s t)))"

definition schedule_pick :: "sched \<Rightarrow> nat option \<Rightarrow> nat option \<Rightarrow> halt + sched" where
  "schedule_pick s curthread newthread =
     (if newthread \<noteq> curthread then
        (case newthread of
           None \<Rightarrow> Inl Fault
         | Some n \<Rightarrow>
             if THREAD_FLAG_SUSPENDED \<in> thr_flags (thread_mem (thread_set_active s n) n)
             then Inl (Panic ''schedule: activating non-idle thread'')
             else Inr ((thread_set_active s n)\<lparr>pcpu_curthread := Some n\<rparr>))
      else Inr (s\<lparr>pcpu_curthread := pcpu_idlethread_ptr s\<rparr>))"

text \<open>
  \<open>schedule\<close> up to the context switch: the state returned is the one handed to
  \<open>md_thread_switch\<close>, with \<open>pcpu_curthread\<close> the thread switched to.
\<close>

definition schedule :: "sched \<Rightarrow> (halt + sched) option" where
  "schedule s0 =
     (let curthread = pcpu_curthread s0;
          s1 = (case curthread of None \<Rightarrow> s0 | Some c \<Rightarrow> thread_clear_active s0 c);
          first = (case curthread of None \<Rightarrow> None | Some c \<Rightarrow> thr_next (thread_mem s1 c));
          start = (if first = None then threads s1 else first)
      in case schedule_scan s1 curthread start of
           None \<Rightarrow> None
         | Some (Inl h) \<Rightarrow> Some (Inl h)
         | Some (Inr newthread) \<Rightarrow> Some (schedule_pick s1 curthread newthread))"

text \<open>
  The order in which the scan visits the threads: the successor of a thread is its
  \<open>next\<close> pointer, or the head of the list when that pointer is null.
\<close>

definition thread_succ :: "sched \<Rightarrow> nat \<Rightarrow> nat option" where
  "thread_succ s t =
     (if thr_next (thread_mem s t) = None then threads s else thr_next (thread_mem s t))"

text \<open>\<open>ring_walk s a ys b\<close>: following successors from \<open>a\<close> visits \<open>ys\<close>, then \<open>b\<close>.\<close>

fun ring_walk :: "sched \<Rightarrow> nat \<Rightarrow> nat list \<Rightarrow> nat \<Rightarrow> bool" where
  "ring_walk s a [] b = (thread_succ s a = Some b)"
| "ring_walk s a (y # ys) b = (thread_succ s a = Some y \<and> ring_walk s y ys b)"

text \<open>What \<open>schedule\<close> is claimed to do, on the threads \<open>ys\<close> met between \<open>T\<close> and \<open>T\<close>.\<close>

definition schedule_result :: "sched \<Rightarrow> nat \<Rightarrow> nat list \<Rightarrow> sched" where
  "schedule_result s T ys =
     (case find (\<lambda>y. \<not> thread_busy s y) ys of
        Some n \<Rightarrow> (thread_set_active (thread_clear_active s T) n)\<lparr>pcpu_curthread := Some n\<rparr>
      | None \<Rightarrow> (thread_clear_active s T)\<lparr>pcpu_curthread := pcpu_idlethread_ptr s\<rparr>)"

text \<open>
  The scenario of three runnable threads A, B and C at the addresses 1, 2 and 3, linked
  in this order from the head of the list, with the idle thread at address 0 outside the
  list; \<open>running\<close> is the thread that is current and Active.
\<close>

definition sched_abc :: "nat \<Rightarrow> sched" where
  "sched_abc running =
     \<lparr>threads = Some 1,
      thread_mem = (\<lambda>t. \<lparr>thr_flags = (if t = running then {THREAD_FLAG_ACTIVE} else {}),
                          thr_next = (if t = 1 then Some 2 else if t = 2 then Some 3 else None)\<rparr>),
      pcpu_curthread = Some running,
      pcpu_idlethread_ptr = Some 0\<rparr>"

section \<open>Dentry cache (kernel/vfs/dentry.cpp)\<close>

text \<open>
  The cache is one pool of \<open>DCACHE_ITEMS_PER_FS\<close> dentries allocated by
  \<open>dcache_init\<close>; a \<open>struct DENTRY*\<close> is the index of a slot of the pool. The two
  queues \<open>dcache_inuse\<close> and \<open>dcache_free\<close> are intrusive lists of slots, kept here as
  lists of indices from head to tail. The flag word is a set of flags, as for threads.
\<close>

datatype dentry_flag = DENTRY_FLAG_ROOT | DENTRY_FLAG_NEGATIVE

record DENTRY =
  d_fs :: "nat option"
  d_parent :: "nat option"
  d_entry :: string
  d_refcount :: int
  d_inode :: "nat option"
  d_flags :: "dentry_flag set"

record dcache =
  dentries :: "DENTRY list"
  dcache_inuse :: "nat list"
  dcache_free :: "nat list"
  i_refcount :: "nat \<Rightarrow> int"

text \<open>
  Modelled from the spec: \<open>vfs_ref_inode\<close> and \<open>vfs_deref_inode\<close> belong to the inode
  cache, which is not part of the source at hand. They take and drop one reference on
  an inode (``takes a strong ref on inode, drops any existing one''); the inodes'
  reference counts are the field \<open>i_refcount\<close> of the state.
\<close>

definition vfs_ref_inode :: "dcache \<Rightarrow> nat \<Rightarrow> dcache" where
  "vfs_ref_inode s i = s\<lparr>i_refcount := (i_refcount s)(i := i_refcount s i + 1)\<rparr>"

definition vfs_deref_inode :: "dcache \<Rightarrow> nat \<Rightarrow> dcache" where
  "vfs_deref_inode s i = s\<lparr>i_refcount := (i_refcount s)(i := i_refcount s i - 1)\<rparr>"

text \<open>A slot after \<open>memset(d, 0, sizeof *d)\<close>.\<close>

definition zero_dentry :: DENTRY where
  "zero_dentry = \<lparr>d_fs = None, d_parent = None, d_entry = [], d_refcount = 0,
                   d_inode = None, d_flags = {}\<rparr>"

text \<open>\<open>dcache_init\<close>; the number of slots (\<open>DCACHE_ITEMS_PER_FS\<close>, from options.h) is a
  parameter, as are the reference counts of the inodes that exist at that time.\<close>

definition dcache_init :: "nat \<Rightarrow> (nat \<Rightarrow> int) \<Rightarrow> dcache" where
  "dcache_init items refs =
     \<lparr>dentries = replicate items zero_dentry, dcache_inuse = [], dcache_free = [0..<items],
      i_refcount = refs\<rparr>"

definition dentry_reclaimable :: "dcache \<Rightarrow> nat \<Rightarrow> bool" where
  "dentry_reclaimable s d \<longleftrightarrow>
     d_refcount (dentries s ! d) = 0 \<and> DENTRY_FLAG_ROOT \<notin> d_flags (dentries s ! d)"

definition dentry_drop_inode :: "dcache \<Rightarrow> nat \<Rightarrow> dcache" where
  "dentry_drop_inode s d =
     (case d_inode (dentries s ! d) of
        None \<Rightarrow> s
      | Some i \<Rightarrow>
          (vfs_deref_inode s i)\<lparr>dentries := (dentries s)[d := (dentries s ! d)\<lparr>d_inode := None\<rparr>]\<rparr>)"

definition dcache_find_entry_to_use :: "dcache \<Rightarrow> nat option \<times> dcache" where
  "dcache_find_entry_to_use s =
     (case dcache_free s of
        d # rest \<Rightarrow> (Some d, s\<lparr>dcache_free := rest\<rparr>)
      | [] \<Rightarrow>
          (case find (dentry_reclaimable s) (rev (dcache_inuse s)) of
             None \<Rightarrow> (None, s)
           | Some d \<Rightarrow>
               (Some d, (dentry_drop_inode s d)\<lparr>dcache_inuse := remove1 d (dcache_inuse s)\<rparr>)))"

definition dcache_create_root_dentry :: "dcache \<Rightarrow> nat \<Rightarrow> halt + nat \<times> dcache" where
  "dcache_create_root_dentry s fs =
     (case dcache_find_entry_to_use s of
        (None, s1) \<Rightarrow> Inl (Panic ''out of dentries'')
      | (Some d, s1) \<Rightarrow>
          Inr (d, s1\<lparr>dentries := (dentries s1)
                       [d := (dentries s1 ! d)\<lparr>d_fs := Some fs, d_refcount := 1, d_inode := None,
                                              d_flags := {DENTRY_FLAG_ROOT}, d_entry := ''/''\<rparr>],
                     dcache_inuse := d # dcache_inuse s1\<rparr>))"

definition dentry_ref :: "dcache \<Rightarrow> nat \<Rightarrow> halt + dcache" where
  "dentry_ref s d =
     (if length (dentries s) \<le> d then Inl Fault
      else if \<not> 0 < d_refcount (dentries s ! d) then Inl (Panic ''invalid refcount'')
      else Inr (s\<lparr>dentries := (dentries s)
                  [d := (dentries s ! d)\<lparr>d_refcount := d_refcount (dentries s ! d) + 1\<rparr>]\<rparr>))"

definition dentry_matches :: "dcache \<Rightarrow> nat \<Rightarrow> string \<Rightarrow> nat \<Rightarrow> bool" where
  "dentry_matches s parent entry d \<longleftrightarrow>
     d_parent (dentries s ! d) = Some parent \<and> d_entry (dentries s ! d) = entry"

definition dentry_pending :: "dcache \<Rightarrow> nat \<Rightarrow> bool" where
  "dentry_pending s d \<longleftrightarrow>
     d_inode (dentries s ! d) = None \<and> DENTRY_FLAG_NEGATIVE \<notin> d_flags (dentries s ! d)"

text \<open>
  \<open>dcache_lookup\<close>. The result is the pointer returned (\<open>None\<close> for \<open>nullptr\<close>) and the
  cache afterwards. On a miss the slot is cleared before \<open>d_fs\<close> is copied from the
  parent, so a slot that is the parent itself reads the cleared field.
\<close>

definition dcache_lookup :: "dcache \<Rightarrow> nat \<Rightarrow> string \<Rightarrow> halt + nat option \<times> dcache" where
  "dcache_lookup s parent entry =
     (case find (dentry_matches s parent entry) (dcache_inuse s) of
        Some d \<Rightarrow>
          if dentry_pending s d then Inr (None, s)
          else Inr (Some d,
                 s\<lparr>dentries := (dentries s)
                      [d := (dentries s ! d)\<lparr>d_refcount := d_refcount (dentries s ! d) + 1\<rparr>],
                   dcache_inuse := d # remove1 d (dcache_inuse s)\<rparr>)
      | None \<Rightarrow>
          (case dcache_find_entry_to_use s of
             (None, s1) \<Rightarrow> Inl (Panic ''dcache full'')
           | (Some d, s1) \<Rightarrow>
               (case dentry_ref s1 parent of
                  Inl h \<Rightarrow> Inl h
                | Inr s2 \<Rightarrow>
                    Inr (Some d,
                      s2\<lparr>dentries := (dentries s2)
                           [d := zero_dentry\<lparr>d_fs := d_fs (((dentries s2)[d := zero_dentry]) ! parent),
                                             d_refcount := 1, d_parent := Some parent,
                                             d_inode := None, d_flags := {}, d_entry := entry\<rparr>],
                         dcache_inuse := d # dcache_inuse s2\<rparr>))))"

text \<open>One step of the loop of \<open>dcache_purge_old_entries\<close>, and the loop over the queue.\<close>

definition dcache_purge_entry :: "dcache \<Rightarrow> nat \<Rightarrow> dcache" where
  "dcache_purge_entry s d =
     (if 0 < d_refcount (dentries s ! d) \<or> DENTRY_FLAG_ROOT \<in> d_flags (dentries s ! d) then s
      else (dentry_drop_inode s d)\<lparr>dcache_inuse := remove1 d (dcache_inuse s),
                                   dcache_free := d # dcache_free s\<rparr>)"

definition dcache_purge_old_entries :: "dcache \<Rightarrow> dcache" where
  "dcache_purge_old_entries s = foldl dcache_purge_entry s (dcache_inuse s)"

definition dcache_set_inode :: "dcache \<Rightarrow> nat \<Rightarrow> nat option \<Rightarrow> halt + dcache" where
  "dcache_set_inode s de inode =
     (case inode of
        None \<Rightarrow> Inl (Panic ''no inode given'')
      | Some i \<Rightarrow>
          if length (dentries s) \<le> de then Inl Fault
          else
            let s1 = (case d_inode (dentries s ! de) of
                        None \<Rightarrow> s | Some old \<Rightarrow> vfs_deref_inode s old);
                s2 = vfs_ref_inode s1 i
            in Inr (s2\<lparr>dentries := (dentries s2)
                       [de := (dentries s2 ! de)\<lparr>d_inode := Some i,
                           d_flags := d_flags (dentries s2 ! de) - {DENTRY_FLAG_NEGATIVE}\<rparr>]\<rparr>))"

text \<open>
  \<open>dentry_deref_locked\<close> works on the pool alone. It recurses along \<open>d_parent\<close>; every
  call lowers one positive reference count, which is why it terminates.
\<close>

lemma sum_list_map_update:
  fixes f :: "'a \<Rightarrow> int"
  shows "i < length xs \<Longrightarrow> sum_list (map f (xs[i := y])) = sum_list (map f xs) - f (xs ! i) + f y"
  by (induction xs arbitrary: i) (auto split: nat.splits)

lemma sum_list_map_nonneg: "0 \<le> sum_list (map (\<lambda>e. max 0 (d_refcount e)) pool)"
  by (rule sum_list_nonneg) auto

function dentry_deref_locked :: "DENTRY list \<Rightarrow> nat \<Rightarrow> halt + DENTRY list" where
  "dentry_deref_locked pool d =
     (if length pool \<le> d then Inl Fault
      else if \<not> 0 < d_refcount (pool ! d) then Inl (Panic ''invalid refcount'')
      else if 0 < d_refcount (pool ! d) - 1
        then Inr (pool[d := (pool ! d)\<lparr>d_refcount := d_refcount (pool ! d) - 1\<rparr>])
      else
        (case d_parent (pool ! d) of
           None \<Rightarrow> Inr (pool[d := (pool ! d)\<lparr>d_refcount := d_refcount (pool ! d) - 1\<rparr>])
         | Some p \<Rightarrow>
             (case dentry_deref_locked
                     (pool[d := (pool ! d)\<lparr>d_refcount := d_refcount (pool ! d) - 1\<rparr>]) p of
                Inl h \<Rightarrow> Inl h
              | Inr pool' \<Rightarrow> Inr (pool'[d := (pool' ! d)\<lparr>d_parent := None\<rparr>]))))"
  by pat_completeness auto
termination
proof (relation "measure (\<lambda>(pool, d). nat (sum_list (map (\<lambda>e. max 0 (d_refcount e)) pool)))")
  show "wf (measure (\<lambda>(pool, d). nat (sum_list (map (\<lambda>e. max 0 (d_refcount e)) pool))))"
    by simp
next
  fix pool :: "DENTRY list" and d x2 :: nat
  assume "\<not> length pool \<le> d" and "\<not> \<not> 0 < d_refcount (pool ! d)"
  then show "((pool[d := (pool ! d)\<lparr>d_refcount := d_refcount (pool ! d) - 1\<rparr>], x2), (pool, d))
      \<in> measure (\<lambda>(pool, d). nat (sum_list (map (\<lambda>e. max 0 (d_refcount e)) pool)))"
    using sum_list_map_update [of d pool "\<lambda>e. max 0 (d_refcount e)"
        "(pool ! d)\<lparr>d_refcount := d_refcount (pool ! d) - 1\<rparr>"]
      sum_list_map_nonneg [of "pool[d := (pool ! d)\<lparr>d_refcount := d_refcount (pool ! d) - 1\<rparr>]"]
    by simp
qed

definition dentry_deref :: "dcache \<Rightarrow> nat \<Rightarrow> halt + dcache" where
  "dentry_deref s de =
     (case dentry_deref_locked (dentries s) de of
        Inl h \<Rightarrow> Inl h
      | Inr pool \<Rightarrow> Inr (s\<lparr>dentries := pool\<rparr>))"

definition dentry_unlink :: "dcache \<Rightarrow> nat \<Rightarrow> halt + dcache" where
  "dentry_unlink s de =
     (if length (dentries s) \<le> de then Inl Fault
      else
        let s1 = s\<lparr>dentries := (dentries s)
                   [de := (dentries s ! de)\<lparr>d_flags := insert DENTRY_FLAG_NEGATIVE
                                                         (d_flags (dentries s ! de))\<rparr>]\<rparr>;
            s2 = (case d_inode (dentries s1 ! de) of
                    None \<Rightarrow> s1 | Some i \<Rightarrow> vfs_deref_inode s1 i)
        in Inr (s2\<lparr>dentries := (dentries s2)[de := (dentries s2 ! de)\<lparr>d_inode := None\<rparr>]\<rparr>))"

text \<open>
  The invariant of the cache that the properties below rely on: the two queues hold
  distinct slots of the pool, and no two entries of the in-use queue that have a parent
  carry the same parent and name.
\<close>

definition dcache_wf :: "dcache \<Rightarrow> bool" where
  "dcache_wf s \<longleftrightarrow>
     distinct (dcache_inuse s @ dcache_free s) \<and>
     list_all (\<lambda>d. d < length (dentries s)) (dcache_inuse s @ dcache_free s) \<and>
     distinct (map (\<lambda>d. (d_parent (dentries s ! d), d_entry (dentries s ! d)))
                (filter (\<lambda>d. d_parent (dentries s ! d) \<noteq> None) (dcache_inuse s)))"

text \<open>
  The cache of the scenarios: a pool of three slots in which \<open>dcache_create_root_dentry\<close>
  has made slot 0 the root of the filesystem 9; every inode starts with one reference.
\<close>

definition dc_root :: dcache where
  "dc_root =
     \<lparr>dentries =
        [\<lparr>d_fs = Some 9, d_parent = None, d_entry = ''/'', d_refcount = 1, d_inode = None,
          d_flags = {DENTRY_FLAG_ROOT}\<rparr>,
         zero_dentry, zero_dentry],
      dcache_inuse = [0], dcache_free = [1, 2], i_refcount = (\<lambda>_. 1)\<rparr>"

text \<open>The names of the entries of the in-use queue, from its head.\<close>

definition dcache_order :: "dcache \<Rightarrow> string list" where
  "dcache_order s = map (\<lambda>d. d_entry (dentries s ! d)) (dcache_inuse s)"

text \<open>
  \<open>dc_ab\<close> is the cache in which ``a'' (slot 1, inode 7) and then ``b'' (slot 2, inode 8)
  have been looked up under the root and resolved; \<open>dc_idle\<close> is the same cache after
  both references have been dropped again.
\<close>

definition dc_ab :: dcache where
  "dc_ab =
     \<lparr>dentries =
        [\<lparr>d_fs = Some 9, d_parent = None, d_entry = ''/'', d_refcount = 3, d_inode = None,
          d_flags = {DENTRY_FLAG_ROOT}\<rparr>,
         \<lparr>d_fs = Some 9, d_parent = Some 0, d_entry = ''a'', d_refcount = 1, d_inode = Some 7,
          d_flags = {}\<rparr>,
         \<lparr>d_fs = Some 9, d_parent = Some 0, d_entry = ''b'', d_refcount = 1, d_inode = Some 8,
          d_flags = {}\<rparr>],
      dcache_inuse = [2, 1, 0], dcache_free = [], i_refcount = (\<lambda>_. 1)(7 := 2, 8 := 2)\<rparr>"

definition dc_idle :: dcache where
  "dc_idle =
     \<lparr>dentries =
        [\<lparr>d_fs = Some 9, d_parent = None, d_entry = ''/'', d_refcount = 1, d_inode = None,
          d_flags = {DENTRY_FLAG_ROOT}\<rparr>,
         \<lparr>d_fs = Some 9, d_parent = None, d_entry = ''a'', d_refcount = 0, d_inode = Some 7,
          d_flags = {}\<rparr>,
         \<lparr>d_fs = Some 9, d_parent = None, d_entry = ''b'', d_refcount = 0, d_inode = Some 8,
          d_flags = {}\<rparr>],
      dcache_inuse = [2, 1, 0], dcache_free = [], i_refcount = (\<lambda>_. 1)(7 := 2, 8 := 2)\<rparr>"

section \<open>USB mass storage (kernel/dev/usb/device/usb-storage.cpp)\<close>

text \<open>
  Integer widths are those of the amd64 target: \<open>int\<close> is a 32-bit word read as two's
  complement, \<open>size_t\<close> a 64-bit word. Conversions between them are written out
  (\<open>scast\<close> extends the sign, \<open>ucast\<close> truncates or extends with zeros).
\<close>

record USBSTORAGE_CBW =
  d_cbw_signature :: "32 word"
  d_cbw_tag :: "32 word"
  d_cbw_data_transferlength :: "32 word"
  d_bm_cbwflags :: "8 word"
  d_cbw_lun :: "8 word"
  d_cbw_cblength :: "8 word"
  d_cbw_cb :: "8 word list"

record USBSTORAGE_CSW =
  d_csw_signature :: "32 word"
  d_csw_tag :: "32 word"
  d_csw_data_residue :: "32 word"
  d_csw_status :: "8 word"

definition USBSTORAGE_CBW_SIGNATURE :: "32 word" where
  "USBSTORAGE_CBW_SIGNATURE = 0x43425355"

definition USBSTORAGE_CBW_FLAG_DATA_OUT :: "8 word" where
  "USBSTORAGE_CBW_FLAG_DATA_OUT = push_bit 7 0"

definition USBSTORAGE_CBW_FLAG_DATA_IN :: "8 word" where
  "USBSTORAGE_CBW_FLAG_DATA_IN = push_bit 7 1"

definition USBSTORAGE_CSW_SIGNATURE :: "32 word" where
  "USBSTORAGE_CSW_SIGNATURE = 0x53425355"

definition USBSTORAGE_CSW_STATUS_GOOD :: "8 word" where
  "USBSTORAGE_CSW_STATUS_GOOD = 0x00"

text \<open>The two packed structures as the bytes that \<open>memcpy\<close> moves (little-endian host).\<close>

definition le32_bytes :: "32 word \<Rightarrow> 8 word list" where
  "le32_bytes w = [ucast w, ucast (drop_bit 8 w), ucast (drop_bit 16 w), ucast (drop_bit 24 w)]"

definition le32_at :: "8 word list \<Rightarrow> nat \<Rightarrow> 32 word" where
  "le32_at bs i =
     ucast (bs ! i) OR push_bit 8 (ucast (bs ! (i + 1))) OR
     push_bit 16 (ucast (bs ! (i + 2))) OR push_bit 24 (ucast (bs ! (i + 3)))"

definition cbw_bytes :: "USBSTORAGE_CBW \<Rightarrow> 8 word list" where
  "cbw_bytes cbw =
     le32_bytes (d_cbw_signature cbw) @ le32_bytes (d_cbw_tag cbw) @
     le32_bytes (d_cbw_data_transferlength cbw) @
     [d_bm_cbwflags cbw, d_cbw_lun cbw, d_cbw_cblength cbw] @ d_cbw_cb cbw"

definition csw_of_bytes :: "8 word list \<Rightarrow> USBSTORAGE_CSW" where
  "csw_of_bytes bs =
     \<lparr>d_csw_signature = le32_at bs 0, d_csw_tag = le32_at bs 4,
      d_csw_data_residue = le32_at bs 8, d_csw_status = bs ! 12\<rparr>"

text \<open>\<open>sizeof(struct USBSTORAGE_CSW)\<close> and \<open>sizeof(struct USBSTORAGE_CBW)\<close> (both packed).\<close>

definition sizeof_CSW :: "32 word" where
  "sizeof_CSW = 13"

definition sizeof_CBW :: "32 word" where
  "sizeof_CBW = 31"

text \<open>
  The declarations of scsi.h that \<open>PerformSCSIRequest\<close> uses are not part of the source
  at hand; they are parameters: the offsets of \<open>c_alloc_len\<close> in \<open>SCSI_CDB_6\<close> (one
  byte) and in \<open>SCSI_CDB_10\<close> (two bytes, big-endian), the offset of \<open>c_code\<close>, and the
  operation code \<open>SCSI_CMD_READ_10\<close>.
\<close>

record scsi_h =
  cdb6_alloc_len_at :: nat
  cdb10_alloc_len_at :: nat
  cdb10_code_at :: nat
  SCSI_CMD_READ_10 :: "8 word"

datatype Direction = D_In | D_Out

text \<open>
  A transfer as far as the storage driver reads and writes it: the inline buffer, the
  length to send, and the length the host controller reports back. A pipe counts the
  calls of \<open>Start\<close> on it that no completion has answered yet.
\<close>

record Transfer =
  t_data :: "8 word list"
  t_length :: "32 word"
  t_result_length :: "32 word"

record Pipe =
  p_xfer :: Transfer
  p_starts :: nat

text \<open>
  The device object. \<open>us_result_ptr\<close> and \<open>us_csw_ptr\<close> point at the locals \<open>err\<close> and
  \<open>csw\<close> of the request in flight, or are null: they are kept as a flag each, and the
  two locals as the fields \<open>req_err\<close> and \<open>req_csw\<close>. \<open>kmem\<close> is the memory that
  holds the caller's result buffer, \<open>us_output_buffer\<close> the address of that buffer.
\<close>

record USBStorage =
  us_BulkIn :: Pipe
  us_BulkOut :: Pipe
  us_output_buffer :: "nat option"
  us_output_filled :: "64 word"
  us_output_len :: "64 word"
  us_result_ptr :: bool
  us_csw_ptr :: bool
  us_signal_sem :: nat
  req_err :: errorcode
  req_csw :: USBSTORAGE_CSW
  kmem :: "nat \<Rightarrow> 8 word"

definition pipe_start :: "Pipe \<Rightarrow> Pipe" where
  "pipe_start p = p\<lparr>p_starts := p_starts p + 1\<rparr>"

text \<open>
  Modelled from the spec: the transport below the driver (usb-core and the host
  controller, which are not part of the source at hand). A pipe completes only a
  transfer that was started on it (``on bulk-out complete, arm bulk-in''; a callback
  calls \<open>pipe.start()\<close> again ``to re-arm''): \<open>pipe_complete\<close> answers one call of
  \<open>Start\<close>, and there is nothing to complete on a pipe that was not started.
\<close>

definition pipe_complete :: "Pipe \<Rightarrow> Pipe option" where
  "pipe_complete p = (if p_starts p = 0 then None else Some (p\<lparr>p_starts := p_starts p - 1\<rparr>))"

text \<open>\<open>memcpy(dst, src, n)\<close> into kernel memory, the source being an inline buffer.\<close>

definition memcpy_to :: "(nat \<Rightarrow> 8 word) \<Rightarrow> nat \<Rightarrow> 8 word list \<Rightarrow> nat \<Rightarrow> nat \<Rightarrow> 8 word" where
  "memcpy_to m dst src n = (\<lambda>a. if dst \<le> a \<and> a < dst + n then src ! (a - dst) else m a)"

text \<open>
  The command block wrapper built by \<open>PerformSCSIRequest\<close>. \<open>result_len\<close> is \<open>None\<close> for
  a null pointer. The wrapper is cleared first and \<open>d_cbw_tag\<close> is never assigned.
\<close>

definition scsi_build_cbw ::
  "scsi_h \<Rightarrow> 32 word \<Rightarrow> Direction \<Rightarrow> 8 word list \<Rightarrow> 64 word \<Rightarrow> 64 word option
   \<Rightarrow> halt + USBSTORAGE_CBW"
where
  "scsi_build_cbw h lun dir cb cb_len result_len =
     (let want = (case result_len of None \<Rightarrow> 0 | Some n \<Rightarrow> n);
          cb0 = take (unat cb_len) cb @ replicate (16 - unat cb_len) 0;
          cbw = \<lparr>d_cbw_signature = USBSTORAGE_CBW_SIGNATURE, d_cbw_tag = 0,
                 d_cbw_data_transferlength = ucast want,
                 d_bm_cbwflags = (if dir = D_In then USBSTORAGE_CBW_FLAG_DATA_IN
                                  else USBSTORAGE_CBW_FLAG_DATA_OUT),
                 d_cbw_lun = ucast lun, d_cbw_cblength = ucast cb_len, d_cbw_cb = cb0\<rparr>
      in if cb_len = 6 then
           Inr (cbw\<lparr>d_cbw_cb := cb0[cdb6_alloc_len_at h := ucast want]\<rparr>)
         else if cb_len = 10 then
           (if cb0 ! cdb10_code_at h \<noteq> SCSI_CMD_READ_10 h
            then Inr (cbw\<lparr>d_cbw_cb := cb0[cdb10_alloc_len_at h := ucast (drop_bit 8 want),
                                           Suc (cdb10_alloc_len_at h) := ucast want]\<rparr>)
            else Inr cbw)
         else Inl (Panic ''invalid cb_len''))"

text \<open>
  The part of \<open>PerformSCSIRequest\<close> before the wait: the wrapper is built, the output
  state is armed under the lock and the wrapper is posted on the bulk-out pipe.
\<close>

definition scsi_submit ::
  "scsi_h \<Rightarrow> USBStorage \<Rightarrow> 32 word \<Rightarrow> Direction \<Rightarrow> 8 word list \<Rightarrow> 64 word \<Rightarrow> nat option
   \<Rightarrow> 64 word option \<Rightarrow> halt + USBSTORAGE_CBW \<times> USBStorage"
where
  "scsi_submit h s lun dir cb cb_len result result_len =
     (if \<not> (result_len = None \<or> result \<noteq> None) then Inl (Panic ''result_len without result?'')
      else
        case scsi_build_cbw h lun dir cb cb_len result_len of
          Inl e \<Rightarrow> Inl e
        | Inr cbw \<Rightarrow>
            Inr (cbw,
              s\<lparr>req_err := UNKNOWN,
                us_output_buffer := result,
                us_output_filled := 0,
                us_output_len := (case result_len of None \<Rightarrow> 0 | Some n \<Rightarrow> n),
                us_result_ptr := True,
                us_csw_ptr := True,
                us_BulkOut := pipe_start
                  ((us_BulkOut s)\<lparr>p_xfer := (p_xfer (us_BulkOut s))
                      \<lparr>t_length := sizeof_CBW,
                        t_data := cbw_bytes cbw @ drop 31 (t_data (p_xfer (us_BulkOut s)))\<rparr>\<rparr>)\<rparr>))"

text \<open>
  \<open>OnPipeInCallback\<close>. \<open>in_copy_len\<close> is the value of \<open>len\<close> handed to \<open>memcpy\<close> in the
  branch that fills the result buffer: \<open>len > left\<close> compares in \<open>size_t\<close>, and
  \<open>len = left\<close> converts back to \<open>int\<close>.
\<close>

definition in_left :: "USBStorage \<Rightarrow> 64 word" where
  "in_left s = us_output_len s - us_output_filled s"

definition in_copy_len :: "USBStorage \<Rightarrow> 32 word" where
  "in_copy_len s =
     (if in_left s < scast (t_result_length (p_xfer (us_BulkIn s)))
      then ucast (in_left s) else t_result_length (p_xfer (us_BulkIn s)))"

definition OnPipeInCallback :: "USBStorage \<Rightarrow> USBStorage" where
  "OnPipeInCallback s =
     (let xfer = p_xfer (us_BulkIn s) in
      case us_output_buffer s of
        Some buf \<Rightarrow>
          let len = in_copy_len s;
              s1 = s\<lparr>kmem := memcpy_to (kmem s) (buf + unat (us_output_filled s)) (t_data xfer)
                                (unat (scast len :: 64 word)),
                     us_output_filled := us_output_filled s + scast len\<rparr>;
              s2 = (if in_left s - scast len = 0
                    then s1\<lparr>us_output_len := scast len, us_output_buffer := None\<rparr> else s1)
          in s2\<lparr>us_BulkIn := pipe_start (us_BulkIn s2)\<rparr>
      | None \<Rightarrow>
          if us_csw_ptr s \<and> us_result_ptr s then
            (if t_result_length xfer \<noteq> sizeof_CSW then s\<lparr>req_err := BAD_LENGTH\<rparr>
             else s\<lparr>req_csw := csw_of_bytes (t_data xfer), req_err := Success\<rparr>)
            \<lparr>us_result_ptr := False, us_csw_ptr := False, us_signal_sem := us_signal_sem s + 1\<rparr>
          else s)"

definition OnPipeOutCallback :: "USBStorage \<Rightarrow> USBStorage" where
  "OnPipeOutCallback s = s\<lparr>us_BulkIn := pipe_start (us_BulkIn s)\<rparr>"

text \<open>
  A completion of the bulk-in pipe, as the host controller leaves it in the transfer
  before the callback runs: the bytes received and their number.
\<close>

definition bulk_in_complete :: "USBStorage \<Rightarrow> 8 word list \<times> 32 word \<Rightarrow> USBStorage" where
  "bulk_in_complete s c =
     OnPipeInCallback
       (s\<lparr>us_BulkIn := (us_BulkIn s)\<lparr>p_xfer := (p_xfer (us_BulkIn s))
             \<lparr>t_data := fst c, t_result_length := snd c\<rparr>\<rparr>\<rparr>)"

text \<open>
  The completion of the wrapper posted on the bulk-out pipe, which runs
  \<open>OnPipeOutCallback\<close>.
\<close>

definition bulk_out_complete :: "USBStorage \<Rightarrow> USBStorage option" where
  "bulk_out_complete s =
     (case pipe_complete (us_BulkOut s) of
        None \<Rightarrow> None
      | Some p \<Rightarrow> Some (OnPipeOutCallback (s\<lparr>us_BulkOut := p\<rparr>)))"

text \<open>
  \<open>sem_wait_and_drain\<close>: the caller sleeps while the device delivers the bulk-in
  completions \<open>cs\<close>, each of which answers a started transfer of the bulk-in pipe, and
  wakes once the semaphore is signalled. \<open>None\<close> is a caller that sleeps forever: the
  device has nothing more to deliver, or the bulk-in pipe was not started, and the
  semaphore was not signalled.
\<close>

fun scsi_wait :: "USBStorage \<Rightarrow> (8 word list \<times> 32 word) list \<Rightarrow> USBStorage option" where
  "scsi_wait s cs =
     (if 0 < us_signal_sem s then Some (s\<lparr>us_signal_sem := 0\<rparr>)
      else case cs of
             [] \<Rightarrow> None
           | c # cs' \<Rightarrow>
               (case pipe_complete (us_BulkIn s) of
                  None \<Rightarrow> None
                | Some p \<Rightarrow> scsi_wait (bulk_in_complete (s\<lparr>us_BulkIn := p\<rparr>) c) cs'))"

text \<open>The checks of \<open>PerformSCSIRequest\<close> after the wait.\<close>

definition scsi_check :: "USBSTORAGE_CBW \<Rightarrow> USBStorage \<Rightarrow> errorcode" where
  "scsi_check cbw s =
     (if req_err s \<noteq> Success then req_err s
      else if d_csw_signature (req_csw s) \<noteq> USBSTORAGE_CSW_SIGNATURE then IO
      else if d_csw_tag (req_csw s) \<noteq> d_cbw_tag cbw then IO
      else if d_csw_status (req_csw s) \<noteq> USBSTORAGE_CSW_STATUS_GOOD then IO
      else Success)"

text \<open>
  \<open>PerformSCSIRequest\<close>, with the bulk-out completion and the bulk-in completions \<open>cs\<close>
  that arrive while the caller waits.
\<close>

definition PerformSCSIRequest ::
  "scsi_h \<Rightarrow> USBStorage \<Rightarrow> 32 word \<Rightarrow> Direction \<Rightarrow> 8 word list \<Rightarrow> 64 word \<Rightarrow> nat option
   \<Rightarrow> 64 word option \<Rightarrow> (8 word list \<times> 32 word) list
   \<Rightarrow> (halt + errorcode \<times> USBStorage) option"
where
  "PerformSCSIRequest h s lun dir cb cb_len result result_len cs =
     (case scsi_submit h s lun dir cb cb_len result result_len of
        Inl e \<Rightarrow> Some (Inl e)
      | Inr (cbw, s1) \<Rightarrow>
          (case bulk_out_complete s1 of
             None \<Rightarrow> None
           | Some s1' \<Rightarrow>
               (case scsi_wait s1' cs of
                  None \<Rightarrow> None
                | Some s2 \<Rightarrow> Some (Inr (scsi_check cbw s2, s2)))))"

text \<open>The bulk-in completions of a request, one after the other.\<close>

definition bulk_in_completions :: "USBStorage \<Rightarrow> (8 word list \<times> 32 word) list \<Rightarrow> USBStorage" where
  "bulk_in_completions s cs = foldl bulk_in_complete s cs"

text \<open>
  The invariant of a request for \<open>n\<close> bytes into the buffer at \<open>buf\<close>: no more than
  \<open>n\<close> bytes are filled, and while the buffer is armed it is this buffer and this length.
\<close>

definition in_inv :: "nat \<Rightarrow> 64 word \<Rightarrow> USBStorage \<Rightarrow> bool" where
  "in_inv buf n s \<longleftrightarrow>
     us_output_filled s \<le> n \<and>
     (case us_output_buffer s of None \<Rightarrow> True | Some b \<Rightarrow> b = buf \<and> us_output_len s = n)"

text \<open>
  What the device delivers on the bulk-in pipe before the status wrapper, for a request
  that still expects \<open>left\<close> bytes of data: each completion reports a length that is not
  negative, every completion but the last reports fewer bytes than are still expected,
  and the last one reports at least the bytes still expected. A request without a result
  buffer has no such completion; one with a result buffer has at least one, also when
  it asks for no byte.
\<close>

fun data_phase :: "64 word \<Rightarrow> (8 word list \<times> 32 word) list \<Rightarrow> bool" where
  "data_phase left [] \<longleftrightarrow> False"
| "data_phase left (c # cs) \<longleftrightarrow>
     0 \<le> sint (snd c) \<and>
     (if left \<le> scast (snd c) then cs = [] else data_phase (left - scast (snd c)) cs)"

definition data_phase_of ::
  "nat option \<Rightarrow> 64 word option \<Rightarrow> (8 word list \<times> 32 word) list \<Rightarrow> bool" where
  "data_phase_of result result_len ds \<longleftrightarrow>
     (case result of
        None \<Rightarrow> result_len = None \<and> ds = []
      | Some buf \<Rightarrow> data_phase (case result_len of None \<Rightarrow> 0 | Some n \<Rightarrow> n) ds)"

text \<open>
  A device at rest, with zeroed memory, and the scsi.h layout of the scenarios
  (allocation length at byte 4 of a 6-byte block and at bytes 7 and 8 of a 10-byte block,
  READ(10) being 0x28).
\<close>

definition us_idle :: USBStorage where
  "us_idle =
     \<lparr>us_BulkIn = \<lparr>p_xfer = \<lparr>t_data = [], t_length = 0, t_result_length = 0\<rparr>, p_starts = 0\<rparr>,
      us_BulkOut = \<lparr>p_xfer = \<lparr>t_data = [], t_length = 0, t_result_length = 0\<rparr>, p_starts = 0\<rparr>,
      us_output_buffer = None, us_output_filled = 0, us_output_len = 0,
      us_result_ptr = False, us_csw_ptr = False, us_signal_sem = 0,
      req_err = UNKNOWN,
      req_csw = \<lparr>d_csw_signature = 0, d_csw_tag = 0, d_csw_data_residue = 0, d_csw_status = 0\<rparr>,
      kmem = (\<lambda>_. 0)\<rparr>"

definition scsi_layout :: scsi_h where
  "scsi_layout = \<lparr>cdb6_alloc_len_at = 4, cdb10_alloc_len_at = 7, cdb10_code_at = 0,
                   SCSI_CMD_READ_10 = 0x28\<rparr>"

text \<open>A READ(10) command block, and a status wrapper with the given tag and status.\<close>

definition read10_cdb :: "8 word list" where
  "read10_cdb = [0x28, 0, 0, 0, 0, 0, 0, 0, 1, 0]"

definition csw_wire :: "32 word \<Rightarrow> 8 word \<Rightarrow> 8 word list" where
  "csw_wire tag status = le32_bytes USBSTORAGE_CSW_SIGNATURE @ le32_bytes tag @ le32_bytes 0 @ [status]"

text \<open>
  The READ(10) scenario: four bytes are requested into the buffer at address 100. The
  wrapper and the armed device are those that \<open>scsi_submit\<close> returns.
\<close>

definition rd_cbw :: USBSTORAGE_CBW where
  "rd_cbw = fst (projr (scsi_submit scsi_layout us_idle 0 D_In read10_cdb 10 (Some 100) (Some 4)))"

definition rd_armed :: USBStorage where
  "rd_armed = snd (projr (scsi_submit scsi_layout us_idle 0 D_In read10_cdb 10 (Some 100) (Some 4)))"

text \<open>The device after the caller has been woken, for the completions \<open>cs\<close>.\<close>

definition rd_done :: "(8 word list \<times> 32 word) list \<Rightarrow> USBStorage" where
  "rd_done cs = the (scsi_wait (the (bulk_out_complete rd_armed)) cs)"

section \<open>UHCI host controller driver (kernel/dev/usb/hcd/uhci-hcd.cpp)\<close>

text \<open>
  A transfer as the host controller driver reads it: the fields above, its flags, the
  endpoint and device address, the physical addresses of its inline buffer and of its
  control request (\<open>KVTOP\<close> of the two fields), and the device it belongs to.
\<close>

datatype transfer_flag =
  TRANSFER_FLAG_PENDING | TRANSFER_FLAG_ERROR | TRANSFER_FLAG_READ | TRANSFER_FLAG_DATA

datatype usb_device_flag = USB_DEVICE_FLAG_LOW_SPEED | USB_DEVICE_FLAG_ROOT_HUB

record USBDevice =
  ud_flags :: "usb_device_flag set"
  ud_max_packet_sz0 :: nat

record USB_Transfer = Transfer +
  t_flags :: "transfer_flag set"
  t_endpoint :: nat
  t_address :: nat
  t_data_phys :: nat
  t_control_req_phys :: nat
  t_device :: USBDevice

text \<open>
  The status and token words of a transfer descriptor are composed from the macros of
  uhci-reg.h, which is not part of the source at hand; the words are kept as the fields
  the macros pack: the low-speed, interrupt-on-completion and active bits and the error
  counter of the status, and the endpoint, address, maximum length, packet id and data
  toggle of the token. A field no macro was applied to is \<open>False\<close>, 0 or \<open>None\<close>.
\<close>

datatype td_pid = TD_PID_IN | TD_PID_OUT | TD_PID_SETUP

record td_status_word =
  st_ls :: bool
  st_ioc :: bool
  st_active :: bool
  st_intonerr :: nat

record td_token_word =
  tok_endpoint :: nat
  tok_address :: nat
  tok_maxlen :: "nat option"
  tok_pid :: "td_pid option"
  tok_data :: bool

text \<open>
  Modelled from the spec: the low bits of a link pointer, which uhci-reg.h defines
  (``QH/TD link-pointer low bits: T=1 (terminator), QH=2, VF=4'').
\<close>

definition TD_LINKPTR_T :: "32 word" where
  "TD_LINKPTR_T = 1"

definition TD_LINKPTR_VF :: "32 word" where
  "TD_LINKPTR_VF = 4"

definition QH_PTR_T :: "32 word" where
  "QH_PTR_T = 1"

text \<open>
  The descriptor that the controller reads. Its buffer pointer \<open>td_buffer\<close> is a 32-bit
  word: an address stored into it keeps its low 32 bits.
\<close>

record UHCI_TD =
  td_linkptr :: "32 word"
  td_status :: td_status_word
  td_token :: td_token_word
  td_buffer :: "32 word"

text \<open>
  A \<open>struct HCD_TD*\<close> is an index into \<open>td_mem\<close>, the descriptors allocated so far;
  \<open>td_buf\<close> is the physical address of the DMA buffer that holds the descriptor and
  \<open>td_next\<close> the \<open>LIST_NEXT\<close> link.
\<close>

record HCD_TD =
  td_td :: UHCI_TD
  td_buf :: "32 word"
  td_next :: "nat option"

record UHCI_QH =
  qh_headptr :: "32 word"
  qh_elementptr :: "32 word"

record HCD_QH =
  qh_qh :: UHCI_QH
  qh_first_td :: "nat option"

record HCD_ScheduledItem =
  si_td :: nat
  si_xfer :: USB_Transfer

text \<open>
  Modelled from the spec: \<open>dma_buf_alloc\<close> is not part of the source at hand
  (``dma_alloc(tag, sz) gives (virt, phys)''). \<open>dma_free\<close> lists the physical
  addresses of the buffers it will hand out; it fails when the list is empty.
\<close>

record UHCI_HCD =
  td_mem :: "HCD_TD list"
  dma_free :: "32 word list"
  uhci_scheduled_items :: "HCD_ScheduledItem list"
  uhci_qh_interrupt :: "HCD_QH list"
  uhci_qh_ls_control :: HCD_QH
  uhci_qh_fs_control :: HCD_QH
  uhci_qh_bulk :: HCD_QH

definition zero_td :: HCD_TD where
  "zero_td =
     \<lparr>td_td = \<lparr>td_linkptr = 0,
                td_status = \<lparr>st_ls = False, st_ioc = False, st_active = False, st_intonerr = 0\<rparr>,
                td_token = \<lparr>tok_endpoint = 0, tok_address = 0, tok_maxlen = None, tok_pid = None,
                            tok_data = False\<rparr>,
                td_buffer = 0\<rparr>,
      td_buf = 0, td_next = None\<rparr>"

definition AllocateTD :: "UHCI_HCD \<Rightarrow> nat option \<times> UHCI_HCD" where
  "AllocateTD hcd =
     (case dma_free hcd of
        [] \<Rightarrow> (None, hcd)
      | phys # rest \<Rightarrow>
          (Some (length (td_mem hcd)),
           hcd\<lparr>dma_free := rest, td_mem := td_mem hcd @ [zero_td\<lparr>td_buf := phys\<rparr>]\<rparr>))"

text \<open>\<open>GetPhysicalAddress\<close> of a descriptor pointer.\<close>

definition GetPhysicalAddress :: "UHCI_HCD \<Rightarrow> nat option \<Rightarrow> 32 word" where
  "GetPhysicalAddress hcd td =
     (case td of None \<Rightarrow> TD_LINKPTR_T | Some p \<Rightarrow> td_buf (td_mem hcd ! p))"

text \<open>
  The loop of \<open>CreateDataTDs\<close>. The loop variables are \<open>link_td\<close>, \<open>data_token\<close>,
  \<open>cur_data_ptr\<close> and the cell \<open>*last_td\<close>, which holds no pointer until the first
  round has stored one.
\<close>

record td_loop =
  lp_hcd :: UHCI_HCD
  lp_link_td :: "nat option"
  lp_data_token :: bool
  lp_cur_data_ptr :: nat
  lp_last_td :: "nat option"

definition xfer_chunk_len :: "nat \<Rightarrow> nat \<Rightarrow> nat \<Rightarrow> nat" where
  "xfer_chunk_len sz max_packet_size i =
     (if sz = max_packet_size then max_packet_size
      else if i = 0 then sz mod max_packet_size else max_packet_size)"

definition CreateDataTDs_round ::
  "nat \<Rightarrow> nat \<Rightarrow> td_pid \<Rightarrow> bool \<Rightarrow> nat \<times> nat \<Rightarrow> nat \<Rightarrow> td_loop \<Rightarrow> halt + td_loop"
where
  "CreateDataTDs_round sz max_packet_size token ls token_addr i st =
     (case AllocateTD (lp_hcd st) of
        (None, hcd) \<Rightarrow> Inl Fault
      | (Some td, hcd) \<Rightarrow>
          Inr \<lparr>lp_hcd = hcd\<lparr>td_mem := (td_mem hcd)
                  [td := (td_mem hcd ! td)
                     \<lparr>td_td :=
                        \<lparr>td_linkptr = TD_LINKPTR_VF OR GetPhysicalAddress hcd (lp_link_td st),
                         td_status = \<lparr>st_ls = ls, st_ioc = False, st_active = True,
                                      st_intonerr = 3\<rparr>,
                         td_token = \<lparr>tok_endpoint = fst token_addr, tok_address = snd token_addr,
                                     tok_maxlen = Some (xfer_chunk_len sz max_packet_size i),
                                     tok_pid = Some token, tok_data = lp_data_token st\<rparr>,
                         td_buffer = of_nat (lp_cur_data_ptr st - xfer_chunk_len sz max_packet_size i)\<rparr>,
                      td_next := lp_link_td st\<rparr>]\<rparr>,
               lp_link_td = Some td,
               lp_data_token = (\<not> lp_data_token st),
               lp_cur_data_ptr = lp_cur_data_ptr st - xfer_chunk_len sz max_packet_size i,
               lp_last_td = (if i = 0 then Some td else lp_last_td st)\<rparr>)"

text \<open>\<open>CreateDataTDs_loop k i\<close> runs the rounds \<open>i\<close>, \<open>i + 1\<close>, ... of which \<open>k\<close> are left.\<close>

primrec CreateDataTDs_loop ::
  "nat \<Rightarrow> nat \<Rightarrow> nat \<Rightarrow> nat \<Rightarrow> td_pid \<Rightarrow> bool \<Rightarrow> nat \<times> nat \<Rightarrow> td_loop \<Rightarrow> halt + td_loop"
where
  "CreateDataTDs_loop 0 i sz max_packet_size token ls token_addr st = Inr st"
| "CreateDataTDs_loop (Suc k) i sz max_packet_size token ls token_addr st =
     (case CreateDataTDs_round sz max_packet_size token ls token_addr i st of
        Inl h \<Rightarrow> Inl h
      | Inr st' \<Rightarrow> CreateDataTDs_loop k (Suc i) sz max_packet_size token ls token_addr st')"

text \<open>
  \<open>CreateDataTDs\<close> returns the head of the chain, the cell \<open>*last_td\<close> and the
  controller. A \<open>max_packet_size\<close> of 0 is a division by zero.
\<close>

definition CreateDataTDs ::
  "UHCI_HCD \<Rightarrow> nat \<Rightarrow> nat \<Rightarrow> nat \<Rightarrow> td_pid \<Rightarrow> bool \<Rightarrow> nat \<times> nat \<Rightarrow> nat option
   \<Rightarrow> halt + nat option \<times> nat option \<times> UHCI_HCD"
where
  "CreateDataTDs hcd data sz max_packet_size token ls token_addr link_td =
     (if max_packet_size = 0 then Inl Fault
      else
        let num_datapkts = (sz + max_packet_size - 1) div max_packet_size in
        case CreateDataTDs_loop num_datapkts 0 sz max_packet_size token ls token_addr
               \<lparr>lp_hcd = hcd, lp_link_td = link_td, lp_data_token = (num_datapkts mod 2 = 1),
                lp_cur_data_ptr = data + sz, lp_last_td = None\<rparr> of
          Inl h \<Rightarrow> Inl h
        | Inr st \<Rightarrow>
            if lp_cur_data_ptr st \<noteq> data then Inl (Panic ''bug'')
            else Inr (lp_link_td st, lp_last_td st, lp_hcd st))"

text \<open>
  Modelled from the spec: \<open>sizeof(struct USB_CONTROL_REQUEST)\<close>, a structure that usb-core.h
  declares; the setup packet is the ``8-byte request''.
\<close>

definition sizeof_USB_CONTROL_REQUEST :: nat where
  "sizeof_USB_CONTROL_REQUEST = 8"

definition xfer_ls :: "USB_Transfer \<Rightarrow> bool" where
  "xfer_ls xfer \<longleftrightarrow> USB_DEVICE_FLAG_LOW_SPEED \<in> ud_flags (t_device xfer)"

definition xfer_isread :: "USB_Transfer \<Rightarrow> bool" where
  "xfer_isread xfer \<longleftrightarrow> TRANSFER_FLAG_READ \<in> t_flags xfer"

definition td_write :: "UHCI_HCD \<Rightarrow> nat \<Rightarrow> (HCD_TD \<Rightarrow> HCD_TD) \<Rightarrow> UHCI_HCD" where
  "td_write hcd td f = hcd\<lparr>td_mem := (td_mem hcd)[td := f (td_mem hcd ! td)]\<rparr>"

definition ScheduleControlTransfer :: "UHCI_HCD \<Rightarrow> USB_Transfer \<Rightarrow> halt + errorcode \<times> UHCI_HCD" where
  "ScheduleControlTransfer hcd0 xfer =
     (let ls = xfer_ls xfer;
          token_addr = (t_endpoint xfer, t_address xfer);
          isread = xfer_isread xfer
      in case AllocateTD hcd0 of
           (None, hcd1) \<Rightarrow> Inl Fault
         | (Some td_handshake, hcd1) \<Rightarrow>
             let hcd2 = td_write hcd1 td_handshake (\<lambda>td. td
                   \<lparr>td_td :=
                      \<lparr>td_linkptr = TD_LINKPTR_T,
                       td_status = \<lparr>st_ls = ls, st_ioc = True, st_active = True, st_intonerr = 3\<rparr>,
                       td_token = \<lparr>tok_endpoint = fst token_addr, tok_address = snd token_addr,
                                   tok_maxlen = None,
                                   tok_pid = Some (if isread then TD_PID_OUT else TD_PID_IN),
                                   tok_data = True\<rparr>,
                       td_buffer = 0\<rparr>\<rparr>)
             in case (if TRANSFER_FLAG_DATA \<in> t_flags xfer
                      then CreateDataTDs hcd2 (t_data_phys xfer) (unat (t_length xfer))
                             (ud_max_packet_sz0 (t_device xfer))
                             (if isread then TD_PID_IN else TD_PID_OUT) ls token_addr
                             (Some td_handshake)
                      else Inr (Some td_handshake, None, hcd2)) of
                  Inl h \<Rightarrow> Inl h
                | Inr (next_setup_ptr, unused_last, hcd3) \<Rightarrow>
                    (case AllocateTD hcd3 of
                       (None, hcd4) \<Rightarrow> Inl Fault
                     | (Some td_setup, hcd4) \<Rightarrow>
                         let hcd5 = td_write hcd4 td_setup (\<lambda>td. td
                               \<lparr>td_td :=
                                  \<lparr>td_linkptr = TD_LINKPTR_VF OR GetPhysicalAddress hcd4 next_setup_ptr,
                                   td_status = \<lparr>st_ls = ls, st_ioc = False, st_active = True,
                                                st_intonerr = 3\<rparr>,
                                   td_token = \<lparr>tok_endpoint = fst token_addr,
                                               tok_address = snd token_addr,
                                               tok_maxlen = Some sizeof_USB_CONTROL_REQUEST,
                                               tok_pid = Some TD_PID_SETUP, tok_data = False\<rparr>,
                                   td_buffer = of_nat (t_control_req_phys xfer)\<rparr>,
                                td_next := next_setup_ptr\<rparr>)
                         in Inr (Success,
                              hcd5\<lparr>uhci_scheduled_items := uhci_scheduled_items hcd5 @
                                       [\<lparr>si_td = td_setup, si_xfer = xfer\<rparr>],
                                   uhci_qh_ls_control := (uhci_qh_ls_control hcd5)
                                       \<lparr>qh_first_td := Some td_setup,
                                        qh_qh := (qh_qh (uhci_qh_ls_control hcd5))
                                          \<lparr>qh_elementptr := GetPhysicalAddress hcd5 (Some td_setup)\<rparr>\<rparr>\<rparr>)))"

text \<open>
  \<open>ScheduleInterruptTransfer\<close>, in two parts: \<open>interrupt_publish\<close> is what follows the
  call of \<open>CreateDataTDs\<close>, for valid pointers \<open>last_td\<close> and \<open>td_chain\<close>. With no
  data packet \<open>last_td\<close> is never assigned and \<open>td_chain\<close> is null, so the two stores
  that follow the call go through invalid pointers.
\<close>

definition interrupt_publish :: "UHCI_HCD \<Rightarrow> USB_Transfer \<Rightarrow> nat \<Rightarrow> nat \<Rightarrow> halt + errorcode \<times> UHCI_HCD" where
  "interrupt_publish hcd1 xfer last_td td_chain =
     (let hcd2 = td_write hcd1 last_td (\<lambda>td. td
            \<lparr>td_td := (td_td td)\<lparr>td_status := (td_status (td_td td))\<lparr>st_ioc := True\<rparr>\<rparr>\<rparr>);
          hcd3 = td_write hcd2 td_chain (\<lambda>td. td
            \<lparr>td_td := (td_td td)\<lparr>td_token := (td_token (td_td td))\<lparr>tok_data := False\<rparr>\<rparr>\<rparr>);
          hcd4 = hcd3\<lparr>uhci_scheduled_items := uhci_scheduled_items hcd3 @
                         [\<lparr>si_td = td_chain, si_xfer = xfer\<rparr>]\<rparr>;
          index = 0
      in if length (uhci_qh_interrupt hcd4) \<le> index then Inl Fault
         else Inr (Success,
           hcd4\<lparr>uhci_qh_interrupt := (uhci_qh_interrupt hcd4)
              [index := (uhci_qh_interrupt hcd4 ! index)
                 \<lparr>qh_first_td := Some td_chain,
                  qh_qh := (qh_qh (uhci_qh_interrupt hcd4 ! index))
                    \<lparr>qh_elementptr := GetPhysicalAddress hcd4 (Some td_chain)\<rparr>\<rparr>]\<rparr>))"

definition ScheduleInterruptTransfer :: "UHCI_HCD \<Rightarrow> USB_Transfer \<Rightarrow> halt + errorcode \<times> UHCI_HCD" where
  "ScheduleInterruptTransfer hcd0 xfer =
     (case CreateDataTDs hcd0 (t_data_phys xfer) (unat (t_length xfer))
             (ud_max_packet_sz0 (t_device xfer))
             (if xfer_isread xfer then TD_PID_IN else TD_PID_OUT) (xfer_ls xfer)
             (t_endpoint xfer, t_address xfer) None of
        Inl h \<Rightarrow> Inl h
      | Inr (td_chain_ptr, last_td, hcd1) \<Rightarrow>
          (case (last_td, td_chain_ptr) of
             (Some last_ptr, Some td_chain) \<Rightarrow> interrupt_publish hcd1 xfer last_ptr td_chain
           | _ \<Rightarrow> Inl Fault))"

text \<open>
  Following the spec's words, for comparison with the code: the interrupt queue heads 0
  to 5 have the periods 1, 2, 4, 8, 16 and 32 ms, and the queue head appropriate to a
  requested interval is the one with that period.
\<close>

definition spec_interrupt_qh_period :: "nat \<Rightarrow> nat" where
  "spec_interrupt_qh_period index = 2 ^ index"

definition spec_interrupt_qh_for :: "nat \<Rightarrow> nat option" where
  "spec_interrupt_qh_for interval = find (\<lambda>k. spec_interrupt_qh_period k = interval) [0, 1, 2, 3, 4, 5]"

text \<open>
  The controller of the scenarios after \<open>Attach\<close>: no descriptor allocated yet, DMA
  buffers at 0x1000, 0x1020, ..., and every queue head empty (element pointer T).
\<close>

definition empty_qh :: HCD_QH where
  "empty_qh = \<lparr>qh_qh = \<lparr>qh_headptr = QH_PTR_T, qh_elementptr = QH_PTR_T\<rparr>, qh_first_td = None\<rparr>"

definition hcd_attached :: UHCI_HCD where
  "hcd_attached =
     \<lparr>td_mem = [], dma_free = [0x1000, 0x1020, 0x1040, 0x1060, 0x1080, 0x10A0],
      uhci_scheduled_items = [],
      uhci_qh_interrupt = replicate 6 empty_qh,
      uhci_qh_ls_control = empty_qh, uhci_qh_fs_control = empty_qh, uhci_qh_bulk = empty_qh\<rparr>"

text \<open>A transfer of \<open>len\<close> bytes to or from endpoint 0 of device 1, 8 bytes a packet.\<close>

definition xfer_of :: "transfer_flag set \<Rightarrow> 32 word \<Rightarrow> USB_Transfer" where
  "xfer_of fl len =
     \<lparr>t_data = [], t_length = len, t_result_length = 0, t_flags = fl, t_endpoint = 0,
      t_address = 1, t_data_phys = 0x2000, t_control_req_phys = 0x3000,
      t_device = \<lparr>ud_flags = {}, ud_max_packet_sz0 = 8\<rparr>\<rparr>"

text \<open>The controller after an interrupt transfer of 12 bytes (two packets) was scheduled.\<close>

definition hcd_interrupt12 :: UHCI_HCD where
  "hcd_interrupt12 =
     snd (projr (ScheduleInterruptTransfer hcd_attached (xfer_of {TRANSFER_FLAG_READ} 12)))"

text \<open>What the scenarios print of a descriptor: packet id, data toggle, maximum length,
  interrupt-on-completion, buffer, link pointer and the next descriptor.\<close>

definition td_summary ::
  "HCD_TD \<Rightarrow> td_pid option \<times> bool \<times> nat option \<times> bool \<times> 32 word \<times> 32 word \<times> nat option" where
  "td_summary t =
     (tok_pid (td_token (td_td t)), tok_data (td_token (td_td t)),
      tok_maxlen (td_token (td_td t)), st_ioc (td_status (td_td t)), td_buffer (td_td t),
      td_linkptr (td_td t), td_next t)"

section \<open>Page-fault handler (kernel/vm/vmfault.cpp)\<close>

datatype vm_flag =
  VM_FLAG_READ | VM_FLAG_WRITE | VM_FLAG_EXECUTE | VM_FLAG_USER | VM_FLAG_PRIVATE |
  VM_FLAG_LAZY | VM_FLAG_ALLOC

datatype vm_page_flag =
  VM_PAGE_FLAG_PRIVATE | VM_PAGE_FLAG_SHARED | VM_PAGE_FLAG_READONLY | VM_PAGE_FLAG_PENDING |
  VM_PAGE_FLAG_COW | VM_PAGE_FLAG_LINK

text \<open>
  Modelled from the spec: \<open>PAGE_SIZE\<close> is defined in machine/param.h, which is not part
  of the source at hand; the scenarios of the spec use pages of 0x1000 bytes.
\<close>

definition PAGE_SIZE :: nat where
  "PAGE_SIZE = 4096"

text \<open>
  Modelled from the spec: the VM page (vmpage.h and vmpage.cpp are not part of the source
  at hand). ``Fields: owning physical page (or None), virtual address within its vmspace,
  flags, an optional (inode, offset) identity used for lookup of shared pages, a
  refcount.'' A link page owns no frame; \<open>vp_link\<close> is the page it aliases. A frame is
  the index of a physical page, and a \<open>struct VM_PAGE*\<close> the index of an entry of
  \<open>vmpages\<close>.
\<close>

record VM_PAGE =
  vp_page :: "nat option"
  vp_vaddr :: nat
  vp_flags :: "vm_page_flag set"
  vp_inode :: "nat option"
  vp_offset :: int
  vp_link :: "nat option"
  vp_refcount :: nat
  vp_locked :: bool

record vmarea =
  va_virt :: nat
  va_len :: nat
  va_flags :: "vm_flag set"
  va_dentry :: "nat option"
  va_doffset :: nat
  va_dlength :: nat
  va_pages :: "nat list"

text \<open>
  The memory-management state: the areas (a \<open>vmarea_t*\<close> is an index into \<open>vmareas\<close>)
  and the list of areas of every address space, the VM pages, the list \<open>i_pages\<close> of
  every inode, the inode and the contents of the file behind every dentry, the physical
  frames (contents and free list), and the page tables written by \<open>md_map_pages\<close>, which
  map (address space, virtual address) to (physical address, flags).
\<close>

record vm_state =
  vmareas :: "vmarea list"
  vs_areas :: "nat \<Rightarrow> nat list"
  vmpages :: "VM_PAGE list"
  i_pages :: "nat \<Rightarrow> nat list"
  d_inode_of :: "nat \<Rightarrow> nat option"
  file_data :: "nat \<Rightarrow> 8 word list"
  frame_data :: "nat \<Rightarrow> 8 word list"
  frame_free :: "nat list"
  page_table :: "nat \<times> nat \<Rightarrow> (nat \<times> vm_flag set) option"

text \<open>
  Modelled from the spec: the helpers of vmpage.cpp, of the page allocator and of the MD
  layer that the handler calls. \<open>vmpage_lookup_locked\<close> queries the inode's shared-page
  list for \<open>(inode, offset)\<close> and returns the page locked; \<open>vmpage_create_shared\<close>
  creates a shared page and inserts it in that list, locked; \<open>vmpage_link\<close> creates ``a
  new vmpage alias sharing the same physical frame, refcount bumped'';
  \<open>vmpage_create_private\<close> allocates ``a new private vmpage with its own frame'';
  \<open>vmpage_copy\<close> copies ``the source frame contents in''; \<open>vmpage_get_page\<close> is the
  frame of a page, through the link of a link page; \<open>md_map_pages\<close> maps one page.
\<close>

definition vmpage_set :: "vm_state \<Rightarrow> nat \<Rightarrow> (VM_PAGE \<Rightarrow> VM_PAGE) \<Rightarrow> vm_state" where
  "vmpage_set s vp f = s\<lparr>vmpages := (vmpages s)[vp := f (vmpages s ! vp)]\<rparr>"

definition vmpage_lookup_locked :: "vm_state \<Rightarrow> nat \<Rightarrow> int \<Rightarrow> nat option \<times> vm_state" where
  "vmpage_lookup_locked s inode offs =
     (case find (\<lambda>vp. vp_offset (vmpages s ! vp) = offs) (i_pages s inode) of
        None \<Rightarrow> (None, s)
      | Some vp \<Rightarrow> (Some vp, vmpage_set s vp (\<lambda>p. p\<lparr>vp_locked := True\<rparr>)))"

definition vmpage_create_shared ::
  "vm_state \<Rightarrow> nat \<Rightarrow> int \<Rightarrow> vm_page_flag set \<Rightarrow> nat \<times> vm_state" where
  "vmpage_create_shared s inode offs fl =
     (length (vmpages s),
      s\<lparr>vmpages := vmpages s @
           [\<lparr>vp_page = None, vp_vaddr = 0, vp_flags = insert VM_PAGE_FLAG_SHARED fl,
             vp_inode = Some inode, vp_offset = offs, vp_link = None, vp_refcount = 1,
             vp_locked = True\<rparr>],
        i_pages := (i_pages s)(inode := i_pages s inode @ [length (vmpages s)])\<rparr>)"

definition vmpage_link :: "vm_state \<Rightarrow> nat \<Rightarrow> nat \<times> vm_state" where
  "vmpage_link s vp =
     (length (vmpages s),
      (vmpage_set s vp (\<lambda>p. p\<lparr>vp_refcount := vp_refcount p + 1\<rparr>))
        \<lparr>vmpages := vmpages (vmpage_set s vp (\<lambda>p. p\<lparr>vp_refcount := vp_refcount p + 1\<rparr>)) @
           [\<lparr>vp_page = None, vp_vaddr = 0, vp_flags = {VM_PAGE_FLAG_LINK}, vp_inode = None,
             vp_offset = 0, vp_link = Some vp, vp_refcount = 1, vp_locked = False\<rparr>]\<rparr>)"

definition page_alloc_single :: "vm_state \<Rightarrow> nat option \<times> vm_state" where
  "page_alloc_single s =
     (case frame_free s of
        [] \<Rightarrow> (None, s)
      | p # rest \<Rightarrow> (Some p, s\<lparr>frame_free := rest\<rparr>))"

definition vmpage_create_private :: "vm_state \<Rightarrow> vm_page_flag set \<Rightarrow> halt + nat \<times> vm_state" where
  "vmpage_create_private s fl =
     (case page_alloc_single s of
        (None, s1) \<Rightarrow> Inl (Panic ''out of memory'')
      | (Some p, s1) \<Rightarrow>
          Inr (length (vmpages s1),
               s1\<lparr>vmpages := vmpages s1 @
                    [\<lparr>vp_page = Some p, vp_vaddr = 0, vp_flags = fl, vp_inode = None,
                      vp_offset = 0, vp_link = None, vp_refcount = 1, vp_locked = False\<rparr>]\<rparr>))"

definition vmpage_get_page :: "vm_state \<Rightarrow> nat \<Rightarrow> nat option" where
  "vmpage_get_page s vp =
     (case vp_link (vmpages s ! vp) of
        None \<Rightarrow> vp_page (vmpages s ! vp)
      | Some target \<Rightarrow> vp_page (vmpages s ! target))"

definition vmpage_copy :: "vm_state \<Rightarrow> nat \<Rightarrow> nat \<Rightarrow> halt + vm_state" where
  "vmpage_copy s src dst =
     (case (vmpage_get_page s src, vmpage_get_page s dst) of
        (Some p, Some q) \<Rightarrow> Inr (s\<lparr>frame_data := (frame_data s)(q := frame_data s p)\<rparr>)
      | _ \<Rightarrow> Inl Fault)"

definition vmpage_unlock :: "vm_state \<Rightarrow> nat \<Rightarrow> vm_state" where
  "vmpage_unlock s vp = vmpage_set s vp (\<lambda>p. p\<lparr>vp_locked := False\<rparr>)"

definition page_get_paddr :: "nat \<Rightarrow> nat" where
  "page_get_paddr p = p * PAGE_SIZE"

definition md_map_pages :: "vm_state \<Rightarrow> nat \<Rightarrow> nat \<Rightarrow> nat \<Rightarrow> vm_flag set \<Rightarrow> vm_state" where
  "md_map_pages s vs vaddr paddr fl = s\<lparr>page_table := (page_table s)((vs, vaddr) \<mapsto> (paddr, fl))\<rparr>"

text \<open>
  Modelled from the spec: \<open>vfs_seek\<close> and \<open>vfs_read\<close> (``read PAGE_SIZE bytes from the
  dentry at read_off''). A read transfers the bytes of the file from the position on, as
  many as there are up to the length asked for, and none from a position outside the file.
\<close>

definition vfs_read_bytes :: "vm_state \<Rightarrow> nat \<Rightarrow> int \<Rightarrow> nat \<Rightarrow> 8 word list" where
  "vfs_read_bytes s dentry offset len =
     (if offset < 0 then [] else take len (drop (nat offset) (file_data s dentry)))"

text \<open>
  \<open>read_data\<close>: the bytes read go to the frame \<open>buf\<close>; the result is \<open>SHORT_READ\<close> when
  fewer than \<open>len\<close> bytes were transferred.
\<close>

definition read_data :: "vm_state \<Rightarrow> nat \<Rightarrow> nat \<Rightarrow> int \<Rightarrow> nat \<Rightarrow> errorcode \<times> vm_state" where
  "read_data s dentry buf offset len =
     (let bytes = vfs_read_bytes s dentry offset len;
          amount = length bytes;
          s1 = s\<lparr>frame_data := (frame_data s)(buf := bytes @ drop amount (frame_data s buf))\<rparr>
      in if amount \<noteq> len then (SHORT_READ, s1) else (Success, s1))"

definition vmspace_page_flags_from_va :: "vmarea \<Rightarrow> vm_page_flag set" where
  "vmspace_page_flags_from_va va =
     (if va_flags va \<inter> {VM_FLAG_READ, VM_FLAG_WRITE} = {VM_FLAG_READ}
      then {VM_PAGE_FLAG_READONLY} else {})"

text \<open>
  \<open>vmspace_handle_fault\<close>, in the order of the source. \<open>fault_fill_pending\<close> is the
  block that reads a Pending page (lines 85 to 98), \<open>fault_map_shared\<close> the rest of the
  file-backed branch (lines 100 to 123), \<open>fault_anonymous\<close> the anonymous branch.
\<close>

definition fault_fill_pending :: "vm_state \<Rightarrow> nat \<Rightarrow> nat \<Rightarrow> int \<Rightarrow> halt + vm_state" where
  "fault_fill_pending s dentry vmpage read_off =
     (if VM_PAGE_FLAG_PENDING \<in> vp_flags (vmpages s ! vmpage) then
        (case page_alloc_single s of
           (None, s1) \<Rightarrow> Inl (Panic ''out of memory'')
         | (Some p, s1) \<Rightarrow>
             (case read_data s1 dentry p read_off PAGE_SIZE of
                (err, s2) \<Rightarrow>
                  if err \<noteq> Success then Inl (Panic ''cannot deal with error'')
                  else Inr (vmpage_set s2 vmpage (\<lambda>vp. vp
                         \<lparr>vp_page := Some p,
                          vp_flags := vp_flags vp - {VM_PAGE_FLAG_PENDING}\<rparr>))))
      else Inr s)"

text \<open>The test of line 105: the whole page lies in the backed slice and the area is
  not private.\<close>

definition fault_can_share :: "vm_state \<Rightarrow> nat \<Rightarrow> int \<Rightarrow> bool" where
  "fault_can_share s a read_off \<longleftrightarrow>
     read_off + int PAGE_SIZE \<le> int (va_doffset (vmareas s ! a) + va_dlength (vmareas s ! a)) \<and>
     VM_FLAG_PRIVATE \<notin> va_flags (vmareas s ! a)"

definition fault_new_page :: "vm_state \<Rightarrow> nat \<Rightarrow> nat \<Rightarrow> int \<Rightarrow> halt + nat \<times> vm_state" where
  "fault_new_page s a vmpage read_off =
     (if fault_can_share s a read_off then Inr (vmpage_link s vmpage)
      else
        (case vmpage_create_private s
                (insert VM_PAGE_FLAG_PRIVATE (vmspace_page_flags_from_va (vmareas s ! a))) of
           Inl h \<Rightarrow> Inl h
         | Inr (new_vp, s1) \<Rightarrow>
             (case vmpage_copy s1 vmpage new_vp of
                Inl h \<Rightarrow> Inl h
              | Inr s2 \<Rightarrow> Inr (new_vp, s2))))"

definition fault_attach :: "vm_state \<Rightarrow> nat \<Rightarrow> nat \<Rightarrow> nat \<Rightarrow> nat \<Rightarrow> vm_flag set \<Rightarrow> halt + errorcode \<times> vm_state" where
  "fault_attach s vs a new_vp v_page fl =
     (let s1 = s\<lparr>vmareas := (vmareas s)
                   [a := (vmareas s ! a)\<lparr>va_pages := va_pages (vmareas s ! a) @ [new_vp]\<rparr>]\<rparr>;
          s2 = vmpage_set s1 new_vp (\<lambda>vp. vp\<lparr>vp_vaddr := v_page\<rparr>)
      in case vmpage_get_page s2 new_vp of
           None \<Rightarrow> Inl Fault
         | Some new_p \<Rightarrow> Inr (Success, md_map_pages s2 vs v_page (page_get_paddr new_p) fl))"

definition fault_map_shared ::
  "vm_state \<Rightarrow> nat \<Rightarrow> nat \<Rightarrow> nat \<Rightarrow> nat \<Rightarrow> int \<Rightarrow> halt + errorcode \<times> vm_state" where
  "fault_map_shared s vs a vmpage v_page read_off =
     (case fault_new_page s a vmpage read_off of
        Inl h \<Rightarrow> Inl h
      | Inr (new_vp, s1) \<Rightarrow>
          fault_attach (vmpage_unlock s1 vmpage) vs a new_vp v_page (va_flags (vmareas s ! a)))"

definition fault_anonymous :: "vm_state \<Rightarrow> nat \<Rightarrow> nat \<Rightarrow> nat \<Rightarrow> halt + errorcode \<times> vm_state" where
  "fault_anonymous s vs a virt =
     (case vmpage_create_private s {VM_PAGE_FLAG_PRIVATE} of
        Inl h \<Rightarrow> Inl h
      | Inr (new_vp, s1) \<Rightarrow>
          (case fault_attach s1 vs a new_vp (virt - virt mod PAGE_SIZE)
                  {VM_FLAG_READ, VM_FLAG_WRITE} of
             Inl h \<Rightarrow> Inl h
           | Inr (e, s2) \<Rightarrow>
               (case vmpage_get_page s2 new_vp of
                  None \<Rightarrow> Inl Fault
                | Some new_p \<Rightarrow>
                    Inr (Success,
                      md_map_pages (s2\<lparr>frame_data := (frame_data s2)(new_p := replicate PAGE_SIZE 0)\<rparr>)
                        vs (virt - virt mod PAGE_SIZE) (page_get_paddr new_p)
                        (va_flags (vmareas s ! a))))))"

definition fault_file_backed ::
  "vm_state \<Rightarrow> nat \<Rightarrow> nat \<Rightarrow> nat \<Rightarrow> nat \<Rightarrow> int \<Rightarrow> halt + errorcode \<times> vm_state" where
  "fault_file_backed s vs a dentry v_page read_off =
     (case d_inode_of s dentry of
        None \<Rightarrow> Inl Fault
      | Some inode \<Rightarrow>
          (case (case vmpage_lookup_locked s inode read_off of
                   (Some vp, s1) \<Rightarrow> (vp, s1)
                 | (None, s1) \<Rightarrow>
                     vmpage_create_shared s1 inode read_off
                       (insert VM_PAGE_FLAG_PENDING (vmspace_page_flags_from_va (vmareas s ! a)))) of
             (vmpage, s2) \<Rightarrow>
               (case fault_fill_pending s2 dentry vmpage read_off of
                  Inl h \<Rightarrow> Inl h
                | Inr s3 \<Rightarrow> fault_map_shared s3 vs a vmpage v_page read_off)))"

definition fault_in_area :: "vm_state \<Rightarrow> nat \<Rightarrow> nat \<Rightarrow> nat \<Rightarrow> halt + errorcode \<times> vm_state" where
  "fault_in_area s vs a virt =
     (let va = vmareas s ! a in
      if va_flags va \<inter> {VM_FLAG_ALLOC, VM_FLAG_LAZY} = {}
      then Inl (Panic ''unexpected pagefault in area'')
      else
        case va_dentry va of
          None \<Rightarrow> fault_anonymous s vs a virt
        | Some dentry \<Rightarrow>
            if int (virt - virt mod PAGE_SIZE) - int (va_virt va) < int (va_dlength va)
            then fault_file_backed s vs a dentry (virt - virt mod PAGE_SIZE)
                   (int (virt - virt mod PAGE_SIZE) - int (va_virt va) + int (va_doffset va))
            else fault_anonymous s vs a virt)"

definition vmspace_handle_fault :: "vm_state \<Rightarrow> nat \<Rightarrow> nat \<Rightarrow> halt + errorcode \<times> vm_state" where
  "vmspace_handle_fault s vs virt =
     (case find (\<lambda>a. va_virt (vmareas s ! a) \<le> virt \<and>
                      virt < va_virt (vmareas s ! a) + va_len (vmareas s ! a)) (vs_areas s vs) of
        None \<Rightarrow> Inr (BAD_ADDRESS, s)
      | Some a \<Rightarrow> fault_in_area s vs a virt)"

text \<open>
  The scenario of the spec: three address spaces 1, 2 and 3 each map the 8192 bytes of
  the file behind dentry 5 (inode 7; 4096 bytes 'A', then 4096 bytes 'B') at 0x40000000
  with the flags Read, User and Lazy; the area of address space 3 is Private as well. The
  frames 10, 11, ... are free.
\<close>

definition vm_area_of :: "vm_flag set \<Rightarrow> vmarea" where
  "vm_area_of fl =
     \<lparr>va_virt = 0x40000000, va_len = 0x2000, va_flags = fl, va_dentry = Some 5,
      va_doffset = 0, va_dlength = 0x2000, va_pages = []\<rparr>"

definition vm_boot :: vm_state where
  "vm_boot =
     \<lparr>vmareas = [vm_area_of {VM_FLAG_READ, VM_FLAG_USER, VM_FLAG_LAZY},
                 vm_area_of {VM_FLAG_READ, VM_FLAG_USER, VM_FLAG_LAZY},
                 vm_area_of {VM_FLAG_READ, VM_FLAG_USER, VM_FLAG_LAZY, VM_FLAG_PRIVATE}],
      vs_areas = (\<lambda>vs. if vs = 1 then [0] else if vs = 2 then [1] else if vs = 3 then [2] else []),
      vmpages = [],
      i_pages = (\<lambda>_. []),
      d_inode_of = (\<lambda>d. if d = 5 then Some 7 else None),
      file_data = (\<lambda>_. replicate 4096 0x41 @ replicate 4096 0x42),
      frame_data = (\<lambda>_. replicate 4096 0),
      frame_free = [10, 11, 12, 13],
      page_table = (\<lambda>_. None)\<rparr>"

text \<open>After address space 1 has faulted at 0x40000000; the state at line 100 of a later
  fault on the same page (the shared page found and locked); and after address space 2
  has faulted there too.\<close>

definition vm_first :: vm_state where
  "vm_first = snd (projr (vmspace_handle_fault vm_boot 1 0x40000000))"

definition vm_line100 :: vm_state where
  "vm_line100 = snd (vmpage_lookup_locked vm_first 7 0)"

definition vm_second :: vm_state where
  "vm_second = snd (projr (vmspace_handle_fault vm_first 2 0x40000000))"

text \<open>The same machine when the file holds 100 bytes only, and the state in which the
  Pending shared page of the first fault has just been created.\<close>

definition vm_short :: vm_state where
  "vm_short = vm_boot\<lparr>file_data := (\<lambda>_. replicate 100 0x41)\<rparr>"

definition vm_short_pending :: vm_state where
  "vm_short_pending =
     snd (vmpage_create_shared vm_short 7 0 {VM_PAGE_FLAG_PENDING, VM_PAGE_FLAG_READONLY})"

chapter \<open>Properties\<close>

section \<open>Scheduler\<close>

lemma clear_active_fields [simp]:
  "thr_next (thread_mem (thread_clear_active s T) t) = thr_next (thread_mem s t)"
  "threads (thread_clear_active s T) = threads s"
  "pcpu_curthread (thread_clear_active s T) = pcpu_curthread s"
  "pcpu_idlethread_ptr (thread_clear_active s T) = pcpu_idlethread_ptr s"
  by (simp_all add: thread_clear_active_def)

lemma thread_succ_clear [simp]: "thread_succ (thread_clear_active s T) t = thread_succ s t"
  by (simp add: thread_succ_def)

lemma ring_walk_clear [simp]: "ring_walk (thread_clear_active s T) a ys b = ring_walk s a ys b"
  by (induction ys arbitrary: a) simp_all

lemma thread_busy_clear_other: "y \<noteq> T \<Longrightarrow> thread_busy (thread_clear_active s T) y = thread_busy s y"
  by (simp add: thread_busy_def thread_clear_active_def)

lemma find_busy_clear:
  "T \<notin> set ys \<Longrightarrow>
   find (\<lambda>y. \<not> thread_busy (thread_clear_active s T) y) ys = find (\<lambda>y. \<not> thread_busy s y) ys"
  by (induction ys) (auto simp: thread_busy_clear_other)

lemma schedule_scan_walk:
  "ring_walk s y ys T \<Longrightarrow> T \<notin> set (y # ys) \<Longrightarrow>
   schedule_scan s (Some T) (Some y) =
     Some (Inr (case find (\<lambda>y. \<not> thread_busy s y) (y # ys) of
                  Some n \<Rightarrow> Some n | None \<Rightarrow> Some T))"
proof (induction ys arbitrary: y)
  case Nil
  then show ?case
    by (subst schedule_scan.simps) (auto simp: thread_succ_def split: if_splits)
next
  case (Cons z zs)
  from Cons.prems have succ: "thread_succ s y = Some z" and walk: "ring_walk s z zs T"
    and zT: "z \<noteq> T" and notin: "T \<notin> set (z # zs)"
    by auto
  show ?case
  proof (cases "thread_busy s y")
    case False
    then show ?thesis by (subst schedule_scan.simps) simp
  next
    case True
    have "schedule_scan s (Some T) (Some y) = schedule_scan s (Some T) (Some z)"
      using True succ zT by (subst schedule_scan.simps) (auto simp: thread_succ_def split: if_splits)
    then show ?thesis using Cons.IH [OF walk notin] True by simp
  qed
qed

lemma schedule_scan_self:
  "thread_succ s T = Some T \<Longrightarrow> schedule_scan s (Some T) (Some T) = Some (Inr (Some T))"
  by (subst schedule_scan.simps) (auto simp: thread_succ_def split: if_splits)

lemma not_busy_set_active:
  "\<not> thread_busy s n \<Longrightarrow> THREAD_FLAG_SUSPENDED \<notin> thr_flags (thread_mem (thread_set_active s n) n)"
  by (auto simp: thread_busy_def thread_set_active_def)

lemma schedule_unfold:
  "pcpu_curthread s = Some T \<Longrightarrow>
   schedule s =
     (case schedule_scan (thread_clear_active s T) (Some T) (thread_succ s T) of
        None \<Rightarrow> None
      | Some (Inl h) \<Rightarrow> Some (Inl h)
      | Some (Inr newthread) \<Rightarrow>
          Some (schedule_pick (thread_clear_active s T) (Some T) newthread))"
  by (simp add: schedule_def Let_def thread_succ_def cong: option.case_cong sum.case_cong)

text \<open>
  Claim C1. Let \<open>T\<close> be the current thread and let the walk along the list from \<open>T\<close>
  (to \<open>T.next\<close>, or to the head of the list where a \<open>next\<close> pointer is null) visit the
  threads \<open>ys\<close> before it is back at \<open>T\<close>. Then \<open>schedule\<close> returns, and the thread it
  selects is the first of \<open>ys\<close> whose flags hold neither Active nor Suspended; that
  thread is marked Active and the Active bit of \<open>T\<close> is cleared. When \<open>ys\<close> holds no
  such thread, the idle thread of the CPU is selected.
\<close>

theorem schedule_selects_next_runnable:
  assumes cur: "pcpu_curthread s = Some T"
    and walk: "ring_walk s T ys T"
    and notin: "T \<notin> set ys"
  shows "schedule s = Some (Inr (schedule_result s T ys))"
proof (cases ys)
  case Nil
  with walk have succ: "thread_succ s T = Some T" by simp
  then have "thread_succ (thread_clear_active s T) T = Some T" by simp
  then have "schedule_scan (thread_clear_active s T) (Some T) (Some T) = Some (Inr (Some T))"
    by (rule schedule_scan_self)
  then show ?thesis
    using Nil succ by (simp add: schedule_unfold [OF cur] schedule_result_def schedule_pick_def)
next
  case (Cons y zs)
  let ?s1 = "thread_clear_active s T"
  from walk Cons have succ: "thread_succ s T = Some y" and w: "ring_walk ?s1 y zs T" by simp_all
  have notin': "T \<notin> set (y # zs)" using notin Cons by simp
  have scan: "schedule_scan ?s1 (Some T) (Some y) =
      Some (Inr (case find (\<lambda>y. \<not> thread_busy s y) ys of Some n \<Rightarrow> Some n | None \<Rightarrow> Some T))"
    using schedule_scan_walk [OF w notin'] find_busy_clear [OF notin, of s] Cons by simp
  show ?thesis
  proof (cases "find (\<lambda>y. \<not> thread_busy s y) ys")
    case None
    then show ?thesis
      using scan succ by (simp add: schedule_unfold [OF cur] schedule_result_def schedule_pick_def)
  next
    case (Some n)
    then have nin: "n \<in> set ys" and nb: "\<not> thread_busy s n"
      by (auto simp: find_Some_iff)
    then have nT: "n \<noteq> T" using notin by auto
    have "\<not> thread_busy ?s1 n" using nb nT by (simp add: thread_busy_clear_other)
    then have "THREAD_FLAG_SUSPENDED \<notin> thr_flags (thread_mem (thread_set_active ?s1 n) n)"
      by (rule not_busy_set_active)
    then show ?thesis
      using scan succ Some nT
      by (simp add: schedule_unfold [OF cur] schedule_result_def schedule_pick_def)
  qed
qed

lemma sched_abc_step_A: "schedule_result (sched_abc 1) 1 [2, 3] = sched_abc 2"
  by (simp add: schedule_result_def sched_abc_def thread_busy_def thread_set_active_def thread_clear_active_def fun_eq_iff)
lemma sched_abc_step_B: "schedule_result (sched_abc 2) 2 [3, 1] = sched_abc 3"
  by (simp add: schedule_result_def sched_abc_def thread_busy_def thread_set_active_def thread_clear_active_def fun_eq_iff)
lemma sched_abc_step_C: "schedule_result (sched_abc 3) 3 [1, 2] = sched_abc 1"
  by (simp add: schedule_result_def sched_abc_def thread_busy_def thread_set_active_def thread_clear_active_def fun_eq_iff)

text \<open>
  With exactly the three runnable threads A, B and C, three calls of \<open>schedule\<close>
  starting from A select B, then C, then A.
\<close>

theorem schedule_selects_next_runnable_witness:
  "pcpu_curthread (sched_abc 1) = Some 1 \<and> ring_walk (sched_abc 1) 1 [2, 3] 1 \<and> 1 \<notin> set [2, 3 :: nat] \<and>
   schedule (sched_abc 1) = Some (Inr (sched_abc 2)) \<and> pcpu_curthread (sched_abc 2) = Some 2 \<and>
   schedule (sched_abc 2) = Some (Inr (sched_abc 3)) \<and> pcpu_curthread (sched_abc 3) = Some 3 \<and>
   schedule (sched_abc 3) = Some (Inr (sched_abc 1))"
proof -
  have a: "pcpu_curthread (sched_abc 1) = Some 1" "ring_walk (sched_abc 1) 1 [2, 3] 1" "1 \<notin> set [2, 3 :: nat]"
    by (simp_all add: sched_abc_def thread_succ_def)
  have b: "pcpu_curthread (sched_abc 2) = Some 2" "ring_walk (sched_abc 2) 2 [3, 1] 2" "2 \<notin> set [3, 1 :: nat]"
    by (simp_all add: sched_abc_def thread_succ_def)
  have c: "pcpu_curthread (sched_abc 3) = Some 3" "ring_walk (sched_abc 3) 3 [1, 2] 3" "3 \<notin> set [1, 2 :: nat]"
    by (simp_all add: sched_abc_def thread_succ_def)
  show ?thesis
    using schedule_selects_next_runnable [OF a] schedule_selects_next_runnable [OF b]
      schedule_selects_next_runnable [OF c] a b c
    by (simp only: sched_abc_step_A sched_abc_step_B sched_abc_step_C simp_thms)
qed

section \<open>Dentry cache\<close>

lemma dcache_wf_match_unique:
  assumes wf: "dcache_wf s"
    and d1: "d1 \<in> set (dcache_inuse s)" "dentry_matches s parent entry d1"
    and d2: "d2 \<in> set (dcache_inuse s)" "dentry_matches s parent entry d2"
  shows "d1 = d2"
proof -
  let ?key = "\<lambda>d. (d_parent (dentries s ! d), d_entry (dentries s ! d))"
  let ?xs = "filter (\<lambda>d. d_parent (dentries s ! d) \<noteq> None) (dcache_inuse s)"
  from wf have "distinct (map ?key ?xs)" by (simp add: dcache_wf_def)
  then have inj: "inj_on ?key (set ?xs)" by (simp add: distinct_map)
  have "d1 \<in> set ?xs" "d2 \<in> set ?xs" using d1 d2 by (auto simp: dentry_matches_def)
  moreover have "?key d1 = ?key d2" using d1 d2 by (simp add: dentry_matches_def)
  ultimately show ?thesis using inj by (auto dest: inj_onD)
qed

lemma dcache_lookup_none_find:
  "(\<exists>s'. dcache_lookup s parent entry = Inr (None, s')) \<longleftrightarrow>
   (\<exists>d. find (dentry_matches s parent entry) (dcache_inuse s) = Some d \<and> dentry_pending s d)"
  by (auto simp: dcache_lookup_def split: option.splits prod.splits sum.splits)

lemma dcache_lookup_none_iff:
  assumes wf: "dcache_wf s"
  shows "(\<exists>s'. dcache_lookup s parent entry = Inr (None, s')) \<longleftrightarrow>
         (\<exists>d\<in>set (dcache_inuse s). dentry_matches s parent entry d \<and> dentry_pending s d)"
proof
  assume "\<exists>s'. dcache_lookup s parent entry = Inr (None, s')"
  then obtain d where "find (dentry_matches s parent entry) (dcache_inuse s) = Some d"
    and "dentry_pending s d"
    by (auto simp: dcache_lookup_none_find)
  then show "\<exists>d\<in>set (dcache_inuse s). dentry_matches s parent entry d \<and> dentry_pending s d"
    by (auto simp: find_Some_iff)
next
  assume "\<exists>d\<in>set (dcache_inuse s). dentry_matches s parent entry d \<and> dentry_pending s d"
  then obtain d where d: "d \<in> set (dcache_inuse s)" "dentry_matches s parent entry d"
    "dentry_pending s d" by blast
  then obtain d' where f: "find (dentry_matches s parent entry) (dcache_inuse s) = Some d'"
    by (cases "find (dentry_matches s parent entry) (dcache_inuse s)") (auto simp: find_None_iff)
  then have "d' \<in> set (dcache_inuse s)" "dentry_matches s parent entry d'"
    by (auto simp: find_Some_iff)
  with wf d have "d' = d" by (metis dcache_wf_match_unique)
  with f d show "\<exists>s'. dcache_lookup s parent entry = Inr (None, s')"
    by (auto simp: dcache_lookup_none_find)
qed

lemma find_Some_in_set: "find P xs = Some x \<Longrightarrow> x \<in> set xs \<and> P x"
  by (induction xs) (auto split: if_splits)

lemma find_entry_to_use_Some:
  assumes "dcache_find_entry_to_use s = (Some d, s1)"
  shows "d \<in> set (dcache_inuse s @ dcache_free s)" and "length (dentries s1) = length (dentries s)"
  using assms
  by (auto simp: dcache_find_entry_to_use_def dentry_drop_inode_def vfs_deref_inode_def
      split: list.splits option.splits dest: find_Some_in_set)

lemma dentry_ref_Inr:
  "dentry_ref s p = Inr s2 \<Longrightarrow> length (dentries s2) = length (dentries s)"
  by (auto simp: dentry_ref_def split: if_splits)

subsection \<open>The invariant is established and kept\<close>

text \<open>
  The invariant holds after \<open>dcache_init\<close> and after the first root entry is created, and
  every lookup, \<open>dcache_set_inode\<close>, \<open>dentry_unlink\<close>, \<open>dentry_deref\<close> and
  \<open>dcache_purge_old_entries\<close> that returns keeps it.
\<close>

lemma dcache_wf_iff:
  "dcache_wf s \<longleftrightarrow>
     distinct (dcache_inuse s @ dcache_free s) \<and>
     (\<forall>d\<in>set (dcache_inuse s @ dcache_free s). d < length (dentries s)) \<and>
     inj_on (\<lambda>d. (d_parent (dentries s ! d), d_entry (dentries s ! d)))
       {d \<in> set (dcache_inuse s). d_parent (dentries s ! d) \<noteq> None}"
  by (auto simp: dcache_wf_def list_all_iff distinct_map)

lemma dcache_wf_init: "dcache_wf (dcache_init items refs)"
  by (simp add: dcache_wf_def dcache_init_def list_all_iff)

text \<open>A step that keeps the queues and may only clear parents keeps the invariant.\<close>

lemma dcache_wf_pool_step:
  assumes wf: "dcache_wf s"
    and q: "dcache_inuse s' = dcache_inuse s" "dcache_free s' = dcache_free s"
    and len: "length (dentries s') = length (dentries s)"
    and keys: "\<forall>d\<in>set (dcache_inuse s). d_entry (dentries s' ! d) = d_entry (dentries s ! d) \<and>
         (d_parent (dentries s' ! d) = d_parent (dentries s ! d) \<or> d_parent (dentries s' ! d) = None)"
  shows "dcache_wf s'"
proof -
  let ?k = "\<lambda>d. (d_parent (dentries s ! d), d_entry (dentries s ! d))"
  let ?k' = "\<lambda>d. (d_parent (dentries s' ! d), d_entry (dentries s' ! d))"
  from wf have inj: "inj_on ?k {d \<in> set (dcache_inuse s). d_parent (dentries s ! d) \<noteq> None}"
    by (simp add: dcache_wf_iff)
  have "inj_on ?k' {d \<in> set (dcache_inuse s). d_parent (dentries s' ! d) \<noteq> None}"
  proof (rule inj_onI)
    fix x y
    assume x: "x \<in> {d \<in> set (dcache_inuse s). d_parent (dentries s' ! d) \<noteq> None}"
      and y: "y \<in> {d \<in> set (dcache_inuse s). d_parent (dentries s' ! d) \<noteq> None}"
      and e: "?k' x = ?k' y"
    from x keys have kx: "?k' x = ?k x" "d_parent (dentries s ! x) \<noteq> None" by auto
    from y keys have ky: "?k' y = ?k y" "d_parent (dentries s ! y) \<noteq> None" by auto
    from e kx ky have "?k x = ?k y" by simp
    with inj x y kx(2) ky(2) show "x = y" by (auto dest: inj_onD)
  qed
  with wf q len show ?thesis by (simp add: dcache_wf_iff)
qed

lemma dcache_set_inode_wf:
  assumes "dcache_set_inode s de inode = Inr s'" and "dcache_wf s"
  shows "dcache_wf s'"
proof (rule dcache_wf_pool_step [OF assms(2)])
  from assms(1) have q: "dcache_inuse s' = dcache_inuse s \<and> dcache_free s' = dcache_free s \<and>
    length (dentries s') = length (dentries s)"
    by (auto simp: dcache_set_inode_def Let_def vfs_ref_inode_def vfs_deref_inode_def
        split: if_splits option.splits)
  then show "dcache_inuse s' = dcache_inuse s" "dcache_free s' = dcache_free s"
    "length (dentries s') = length (dentries s)" by simp_all
  from assms(1) show "\<forall>d\<in>set (dcache_inuse s). d_entry (dentries s' ! d) = d_entry (dentries s ! d) \<and>
         (d_parent (dentries s' ! d) = d_parent (dentries s ! d) \<or> d_parent (dentries s' ! d) = None)"
    by (auto simp: dcache_set_inode_def Let_def vfs_ref_inode_def vfs_deref_inode_def
        nth_list_update split: if_splits option.splits)
qed

lemma dentry_unlink_wf:
  assumes "dentry_unlink s de = Inr s'" and "dcache_wf s"
  shows "dcache_wf s'"
proof (rule dcache_wf_pool_step [OF assms(2)])
  from assms(1) have de: "de < length (dentries s)"
    by (auto simp: dentry_unlink_def split: if_splits)
  from assms(1) have q: "dcache_inuse s' = dcache_inuse s \<and> dcache_free s' = dcache_free s \<and>
    length (dentries s') = length (dentries s)"
    by (auto simp: dentry_unlink_def Let_def vfs_deref_inode_def split: if_splits option.splits)
  then show "dcache_inuse s' = dcache_inuse s" "dcache_free s' = dcache_free s"
    "length (dentries s') = length (dentries s)" by simp_all
  from assms(1) de show "\<forall>d\<in>set (dcache_inuse s). d_entry (dentries s' ! d) = d_entry (dentries s ! d) \<and>
         (d_parent (dentries s' ! d) = d_parent (dentries s ! d) \<or> d_parent (dentries s' ! d) = None)"
    by (auto simp: dentry_unlink_def Let_def vfs_deref_inode_def nth_list_update
        split: if_splits option.splits)
qed

lemma dentry_deref_locked_keys:
  "dentry_deref_locked pool d = Inr pool' \<Longrightarrow>
   length pool' = length pool \<and>
   (\<forall>i. d_entry (pool' ! i) = d_entry (pool ! i) \<and>
        (d_parent (pool' ! i) = d_parent (pool ! i) \<or> d_parent (pool' ! i) = None))"
proof (induction pool d arbitrary: pool' rule: dentry_deref_locked.induct)
  case (1 pool d)
  let ?p1 = "pool[d := (pool ! d)\<lparr>d_refcount := d_refcount (pool ! d) - 1\<rparr>]"
  from "1.prems" have ok: "\<not> length pool \<le> d" "0 < d_refcount (pool ! d)"
    by (auto simp: dentry_deref_locked.simps [of pool d] split: if_splits)
  have p1: "length ?p1 = length pool"
    "\<And>i. d_entry (?p1 ! i) = d_entry (pool ! i)" "\<And>i. d_parent (?p1 ! i) = d_parent (pool ! i)"
    using ok by (auto simp: nth_list_update)
  show ?case
  proof (cases "0 < d_refcount (pool ! d) - 1")
    case True
    with "1.prems" ok have "pool' = ?p1"
      by (simp add: dentry_deref_locked.simps [of pool d])
    with p1 show ?thesis by simp
  next
    case False
    show ?thesis
    proof (cases "d_parent (pool ! d)")
      case None
      with "1.prems" ok False have "pool' = ?p1"
        by (simp add: dentry_deref_locked.simps [of pool d])
      with p1 show ?thesis by simp
    next
      case (Some p)
      with "1.prems" ok False obtain pool2 where
        r: "dentry_deref_locked ?p1 p = Inr pool2"
        and res: "pool' = pool2[d := (pool2 ! d)\<lparr>d_parent := None\<rparr>]"
        by (auto simp: dentry_deref_locked.simps [of pool d] split: sum.splits)
      from "1.IH" [OF ok(1) _ False Some r] ok
      have ih: "length pool2 = length ?p1"
        "\<And>i. d_entry (pool2 ! i) = d_entry (?p1 ! i)"
        "\<And>i. d_parent (pool2 ! i) = d_parent (?p1 ! i) \<or> d_parent (pool2 ! i) = None"
        by auto
      show ?thesis
      proof (intro conjI allI)
        show "length pool' = length pool" using res ih(1) p1(1) by simp
        fix i
        show "d_entry (pool' ! i) = d_entry (pool ! i)"
          using res ih(1) ih(2) [of i] p1 ok by (cases "i = d") (auto simp: nth_list_update)
        show "d_parent (pool' ! i) = d_parent (pool ! i) \<or> d_parent (pool' ! i) = None"
          using res ih(1) ih(3) [of i] p1 ok by (cases "i = d") (auto simp: nth_list_update)
      qed
    qed
  qed
qed

lemma dentry_deref_wf:
  assumes "dentry_deref s de = Inr s'" and "dcache_wf s"
  shows "dcache_wf s'"
proof -
  from assms(1) obtain pool' where r: "dentry_deref_locked (dentries s) de = Inr pool'"
    and s': "s' = s\<lparr>dentries := pool'\<rparr>"
    by (auto simp: dentry_deref_def split: sum.splits)
  from dentry_deref_locked_keys [OF r] s' show ?thesis
    by (intro dcache_wf_pool_step [OF assms(2)]) auto
qed

lemma find_None_all: "find P xs = None \<Longrightarrow> x \<in> set xs \<Longrightarrow> \<not> P x"
  by (simp add: find_None_iff)

lemma dcache_wf_move_to_front:
  assumes "dcache_wf s" and "d \<in> set (dcache_inuse s)"
  shows "dcache_wf (s\<lparr>dcache_inuse := d # remove1 d (dcache_inuse s)\<rparr>)"
proof -
  from assms have dist: "distinct (dcache_inuse s)" by (simp add: dcache_wf_iff)
  with assms(2) have set_eq: "insert d (set (remove1 d (dcache_inuse s))) = set (dcache_inuse s)"
    by auto
  from dist have notin: "d \<notin> set (remove1 d (dcache_inuse s))" by simp
  from assms have "d \<notin> set (dcache_free s)" by (auto simp: dcache_wf_iff)
  moreover from assms have "set (remove1 d (dcache_inuse s)) \<inter> set (dcache_free s) = {}"
    using set_eq by (auto simp: dcache_wf_iff)
  moreover have "{x. (x = d \<or> x \<in> set (remove1 d (dcache_inuse s))) \<and> d_parent (dentries s ! x) \<noteq> None}
      = {x \<in> set (dcache_inuse s). d_parent (dentries s ! x) \<noteq> None}"
    using set_eq by auto
  ultimately show ?thesis
    using assms dist notin set_eq by (auto simp: dcache_wf_iff)
qed

lemma dcache_find_entry_to_use_wf:
  assumes f: "dcache_find_entry_to_use s = (Some d, s1)" and wf: "dcache_wf s"
  shows "d \<notin> set (dcache_inuse s1 @ dcache_free s1)"
    and "set (dcache_inuse s1) \<subseteq> set (dcache_inuse s)"
    and "d < length (dentries s)"
    and "length (dentries s1) = length (dentries s)"
    and "d_parent (dentries s1 ! x) = d_parent (dentries s ! x)"
    and "d_entry (dentries s1 ! x) = d_entry (dentries s ! x)"
    and "dcache_wf s1"
proof -
  consider (free) rest where "dcache_free s = d # rest" "s1 = s\<lparr>dcache_free := rest\<rparr>"
    | (reclaim) "dcache_free s = []" "d \<in> set (dcache_inuse s)"
        "s1 = (dentry_drop_inode s d)\<lparr>dcache_inuse := remove1 d (dcache_inuse s)\<rparr>"
    using f by (auto simp: dcache_find_entry_to_use_def split: list.splits option.splits
        dest: find_Some_in_set)
  then have "d \<notin> set (dcache_inuse s1 @ dcache_free s1) \<and>
    set (dcache_inuse s1) \<subseteq> set (dcache_inuse s) \<and> d < length (dentries s) \<and>
    length (dentries s1) = length (dentries s) \<and>
    d_parent (dentries s1 ! x) = d_parent (dentries s ! x) \<and>
    d_entry (dentries s1 ! x) = d_entry (dentries s ! x) \<and> dcache_wf s1"
  proof cases
    case free
    with wf show ?thesis by (auto simp: dcache_wf_iff)
  next
    case reclaim
    let ?s0 = "dentry_drop_inode s d"
    have q: "dcache_inuse ?s0 = dcache_inuse s" "dcache_free ?s0 = dcache_free s"
      "length (dentries ?s0) = length (dentries s)"
      by (simp_all add: dentry_drop_inode_def vfs_deref_inode_def split: option.splits)
    from wf reclaim have d: "d < length (dentries s)" by (auto simp: dcache_wf_iff)
    have k: "\<And>y. d_parent (dentries ?s0 ! y) = d_parent (dentries s ! y)"
      "\<And>y. d_entry (dentries ?s0 ! y) = d_entry (dentries s ! y)"
      using d by (auto simp: dentry_drop_inode_def vfs_deref_inode_def nth_list_update
          split: option.splits)
    have wf0: "dcache_wf ?s0"
      by (rule dcache_wf_pool_step [OF wf]) (simp_all add: q k)
    from wf reclaim have dist: "distinct (dcache_inuse s)" by (simp add: dcache_wf_iff)
    have sub: "set (remove1 d (dcache_inuse s)) \<subseteq> set (dcache_inuse s)"
      by (rule set_remove1_subset)
    have "{x \<in> set (remove1 d (dcache_inuse s)). d_parent (dentries ?s0 ! x) \<noteq> None}
       \<subseteq> {x \<in> set (dcache_inuse ?s0). d_parent (dentries ?s0 ! x) \<noteq> None}"
      using sub q by auto
    with wf0 have "inj_on (\<lambda>x. (d_parent (dentries ?s0 ! x), d_entry (dentries ?s0 ! x)))
      {x \<in> set (remove1 d (dcache_inuse s)). d_parent (dentries ?s0 ! x) \<noteq> None}"
      unfolding dcache_wf_iff by (blast intro: inj_on_subset)
    with wf0 reclaim q sub dist have "dcache_wf s1"
      by (auto simp: dcache_wf_iff)
    with reclaim dist d q k sub show ?thesis by auto
  qed
  then show "d \<notin> set (dcache_inuse s1 @ dcache_free s1)"
    and "set (dcache_inuse s1) \<subseteq> set (dcache_inuse s)"
    and "d < length (dentries s)"
    and "length (dentries s1) = length (dentries s)"
    and "d_parent (dentries s1 ! x) = d_parent (dentries s ! x)"
    and "d_entry (dentries s1 ! x) = d_entry (dentries s ! x)"
    and "dcache_wf s1" by blast+
qed

lemma dcache_lookup_wf:
  assumes l: "dcache_lookup s parent entry = Inr (r, s')" and wf: "dcache_wf s"
  shows "dcache_wf s'"
proof (cases "find (dentry_matches s parent entry) (dcache_inuse s)")
  case (Some d)
  then have d: "d \<in> set (dcache_inuse s)" by (auto dest: find_Some_in_set)
  show ?thesis
  proof (cases "dentry_pending s d")
    case True
    with l Some wf show ?thesis by (simp add: dcache_lookup_def)
  next
    case False
    let ?s1 = "s\<lparr>dentries := (dentries s)
                  [d := (dentries s ! d)\<lparr>d_refcount := d_refcount (dentries s ! d) + 1\<rparr>]\<rparr>"
    from wf d have "d < length (dentries s)" by (auto simp: dcache_wf_iff)
    then have "dcache_wf ?s1"
      by (intro dcache_wf_pool_step [OF wf]) (auto simp: nth_list_update)
    from dcache_wf_move_to_front [OF this, of d] d
    have "dcache_wf (?s1\<lparr>dcache_inuse := d # remove1 d (dcache_inuse s)\<rparr>)" by simp
    moreover from l Some False
    have "s' = ?s1\<lparr>dcache_inuse := d # remove1 d (dcache_inuse s)\<rparr>"
      by (simp add: dcache_lookup_def)
    ultimately show ?thesis by simp
  qed
next
  case None
  with l obtain d s1 s2 where f: "dcache_find_entry_to_use s = (Some d, s1)"
    and rf: "dentry_ref s1 parent = Inr s2"
    and s': "s' = s2\<lparr>dentries := (dentries s2)
                 [d := zero_dentry\<lparr>d_fs := d_fs (((dentries s2)[d := zero_dentry]) ! parent),
                                   d_refcount := 1, d_parent := Some parent,
                                   d_inode := None, d_flags := {}, d_entry := entry\<rparr>],
               dcache_inuse := d # dcache_inuse s2\<rparr>"
    by (auto simp: dcache_lookup_def split: option.splits prod.splits sum.splits)
  note p = dcache_find_entry_to_use_wf [OF f wf]
  from rf have s2: "dcache_inuse s2 = dcache_inuse s1" "dcache_free s2 = dcache_free s1"
    "length (dentries s2) = length (dentries s1)"
    "\<And>x. d_parent (dentries s2 ! x) = d_parent (dentries s1 ! x)"
    "\<And>x. d_entry (dentries s2 ! x) = d_entry (dentries s1 ! x)"
    by (auto simp: dentry_ref_def nth_list_update split: if_splits)
  have wf2: "dcache_wf s2"
    by (rule dcache_wf_pool_step [OF p(7)]) (simp_all add: s2)
  let ?k = "\<lambda>x. (d_parent (dentries s2 ! x), d_entry (dentries s2 ! x))"
  let ?k' = "\<lambda>x. (d_parent (dentries s' ! x), d_entry (dentries s' ! x))"
  have dlen: "d < length (dentries s2)" using p(3,4) s2(3) by simp
  have kd: "?k' d = (Some parent, entry)" using dlen by (simp add: s')
  have ko: "\<And>x. x \<noteq> d \<Longrightarrow> ?k' x = ?k x" by (simp add: s')
  have nomatch: "\<And>x. x \<in> set (dcache_inuse s2) \<Longrightarrow> ?k x \<noteq> (Some parent, entry)"
  proof -
    fix x assume "x \<in> set (dcache_inuse s2)"
    with p(2) s2(1) have "x \<in> set (dcache_inuse s)" by auto
    from find_None_all [OF None this] show "?k x \<noteq> (Some parent, entry)"
      by (simp add: dentry_matches_def s2(4,5) p(5,6))
  qed
  from wf2 have inj: "inj_on ?k {x \<in> set (dcache_inuse s2). d_parent (dentries s2 ! x) \<noteq> None}"
    by (simp add: dcache_wf_iff)
  have dn: "d \<notin> set (dcache_inuse s2)" "d \<notin> set (dcache_free s2)" using p(1) s2 by auto
  have "inj_on ?k' {x \<in> set (dcache_inuse s'). d_parent (dentries s' ! x) \<noteq> None}"
  proof (rule inj_onI)
    fix x y
    assume x: "x \<in> {x \<in> set (dcache_inuse s'). d_parent (dentries s' ! x) \<noteq> None}"
      and y: "y \<in> {x \<in> set (dcache_inuse s'). d_parent (dentries s' ! x) \<noteq> None}"
      and e: "?k' x = ?k' y"
    have mem: "\<And>z. z \<in> set (dcache_inuse s') \<Longrightarrow> z \<noteq> d \<Longrightarrow> z \<in> set (dcache_inuse s2)"
      by (simp add: s')
    show "x = y"
    proof (cases "x = d")
      case True
      show ?thesis
      proof (cases "y = d")
        case True
        with \<open>x = d\<close> show ?thesis by simp
      next
        case False
        with y mem have "y \<in> set (dcache_inuse s2)" by simp
        from nomatch [OF this] ko [OF False] kd e True show ?thesis by simp
      qed
    next
      case False
      with x mem have xin: "x \<in> set (dcache_inuse s2)" by simp
      show ?thesis
      proof (cases "y = d")
        case True
        from nomatch [OF xin] ko [OF False] kd e True show ?thesis by simp
      next
        case yd: False
        with y mem have yin: "y \<in> set (dcache_inuse s2)" by simp
        from x y ko [OF False] ko [OF yd] e
        have "?k x = ?k y" "d_parent (dentries s2 ! x) \<noteq> None" "d_parent (dentries s2 ! y) \<noteq> None"
          by auto
        with inj xin yin show ?thesis by (auto dest: inj_onD)
      qed
    qed
  qed
  moreover have "distinct (dcache_inuse s' @ dcache_free s')"
    using wf2 dn by (simp add: s' dcache_wf_iff)
  moreover have "\<forall>x\<in>set (dcache_inuse s' @ dcache_free s'). x < length (dentries s')"
    using wf2 dlen by (auto simp: s' dcache_wf_iff)
  ultimately show ?thesis unfolding dcache_wf_iff by blast
qed

lemma dentry_drop_inode_wf:
  assumes wf: "dcache_wf s" and d: "d \<in> set (dcache_inuse s)"
  shows "dcache_wf (dentry_drop_inode s d)"
    and "dcache_inuse (dentry_drop_inode s d) = dcache_inuse s"
    and "dcache_free (dentry_drop_inode s d) = dcache_free s"
proof -
  let ?s0 = "dentry_drop_inode s d"
  show q: "dcache_inuse ?s0 = dcache_inuse s" "dcache_free ?s0 = dcache_free s"
    by (simp_all add: dentry_drop_inode_def vfs_deref_inode_def split: option.splits)
  have len: "length (dentries ?s0) = length (dentries s)"
    by (simp add: dentry_drop_inode_def vfs_deref_inode_def split: option.splits)
  from wf d have "d < length (dentries s)" by (auto simp: dcache_wf_iff)
  then have k: "\<And>y. d_parent (dentries ?s0 ! y) = d_parent (dentries s ! y)"
    "\<And>y. d_entry (dentries ?s0 ! y) = d_entry (dentries s ! y)"
    by (auto simp: dentry_drop_inode_def vfs_deref_inode_def nth_list_update
        split: option.splits)
  show "dcache_wf ?s0"
    by (rule dcache_wf_pool_step [OF wf]) (simp_all add: q len k)
qed

lemma dcache_wf_release:
  assumes wf: "dcache_wf s" and d: "d \<in> set (dcache_inuse s)"
  shows "dcache_wf (s\<lparr>dcache_inuse := remove1 d (dcache_inuse s), dcache_free := d # dcache_free s\<rparr>)"
proof -
  from wf have dist: "distinct (dcache_inuse s)" by (simp add: dcache_wf_iff)
  have sub: "set (remove1 d (dcache_inuse s)) \<subseteq> set (dcache_inuse s)"
    by (rule set_remove1_subset)
  have "{x \<in> set (remove1 d (dcache_inuse s)). d_parent (dentries s ! x) \<noteq> None}
       \<subseteq> {x \<in> set (dcache_inuse s). d_parent (dentries s ! x) \<noteq> None}"
    using sub by auto
  with wf have "inj_on (\<lambda>x. (d_parent (dentries s ! x), d_entry (dentries s ! x)))
      {x \<in> set (remove1 d (dcache_inuse s)). d_parent (dentries s ! x) \<noteq> None}"
    unfolding dcache_wf_iff by (blast intro: inj_on_subset)
  with wf d dist sub show ?thesis by (auto simp: dcache_wf_iff)
qed

lemma dcache_purge_entry_wf:
  assumes wf: "dcache_wf s" and d: "d \<in> set (dcache_inuse s)"
  shows "dcache_wf (dcache_purge_entry s d)"
    and "set (dcache_inuse s) - {d} \<subseteq> set (dcache_inuse (dcache_purge_entry s d))"
proof -
  note p = dentry_drop_inode_wf [OF wf d]
  from p(1) d have "dcache_wf ((dentry_drop_inode s d)
      \<lparr>dcache_inuse := remove1 d (dcache_inuse (dentry_drop_inode s d)),
        dcache_free := d # dcache_free (dentry_drop_inode s d)\<rparr>)"
    by (intro dcache_wf_release) (simp_all add: p(2))
  with wf show "dcache_wf (dcache_purge_entry s d)"
    by (simp add: dcache_purge_entry_def p(2,3))
  from wf have "distinct (dcache_inuse s)" by (simp add: dcache_wf_iff)
  then show "set (dcache_inuse s) - {d} \<subseteq> set (dcache_inuse (dcache_purge_entry s d))"
    by (auto simp: dcache_purge_entry_def)
qed

lemma dcache_purge_loop_wf:
  "dcache_wf s \<Longrightarrow> distinct xs \<Longrightarrow> set xs \<subseteq> set (dcache_inuse s) \<Longrightarrow>
   dcache_wf (foldl dcache_purge_entry s xs)"
proof (induction xs arbitrary: s)
  case Nil
  then show ?case by simp
next
  case (Cons x xs)
  from Cons.prems have x: "x \<in> set (dcache_inuse s)" by simp
  note p = dcache_purge_entry_wf [OF Cons.prems(1) x]
  from Cons.prems p(2) have "set xs \<subseteq> set (dcache_inuse (dcache_purge_entry s x))" by auto
  with Cons.IH [OF p(1)] Cons.prems(2) show ?case by simp
qed

lemma dcache_purge_old_entries_wf:
  "dcache_wf s \<Longrightarrow> dcache_wf (dcache_purge_old_entries s)"
  unfolding dcache_purge_old_entries_def
  by (rule dcache_purge_loop_wf) (simp_all add: dcache_wf_iff)

lemma dcache_create_root_first_wf:
  assumes "dcache_create_root_dentry (dcache_init items refs) fs = Inr (d, s)"
  shows "dcache_wf s"
proof -
  from assms obtain rest where its: "[0..<items] = d # rest"
    and s: "s = (dcache_init items refs)\<lparr>dcache_free := rest,
       dentries := (replicate items zero_dentry)
         [d := (replicate items zero_dentry ! d)\<lparr>d_fs := Some fs, d_refcount := 1, d_inode := None,
                 d_flags := {DENTRY_FLAG_ROOT}, d_entry := ''/''\<rparr>],
       dcache_inuse := [d]\<rparr>"
    by (auto simp: dcache_create_root_dentry_def dcache_find_entry_to_use_def dcache_init_def
        split: list.splits)
  have dist: "distinct (d # rest)" and bnd: "\<forall>x\<in>set (d # rest). x < items"
    unfolding its [symmetric] by auto
  then show ?thesis
    by (auto simp: s dcache_wf_iff dcache_init_def intro!: inj_onI)
qed

lemma dcache_lookup_miss:
  assumes wf: "dcache_wf s"
    and miss: "find (dentry_matches s parent entry) (dcache_inuse s) = None"
    and res: "dcache_lookup s parent entry = Inr (Some d, s1)"
  shows "d < length (dentries s1)"
    and "\<exists>rest. dcache_inuse s1 = d # rest"
    and "dentries s1 ! d = zero_dentry\<lparr>d_fs := d_fs (dentries s1 ! d), d_refcount := 1,
            d_parent := Some parent, d_inode := None, d_flags := {}, d_entry := entry\<rparr>"
proof -
  from miss res obtain sa sb where fe: "dcache_find_entry_to_use s = (Some d, sa)"
    and rf: "dentry_ref sa parent = Inr sb"
    and s1: "s1 = sb\<lparr>dentries := (dentries sb)
               [d := zero_dentry\<lparr>d_fs := d_fs (((dentries sb)[d := zero_dentry]) ! parent),
                                 d_refcount := 1, d_parent := Some parent,
                                 d_inode := None, d_flags := {}, d_entry := entry\<rparr>],
             dcache_inuse := d # dcache_inuse sb\<rparr>"
    by (auto simp: dcache_lookup_def split: option.splits prod.splits sum.splits)
  from find_entry_to_use_Some [OF fe] wf have "d < length (dentries sa)"
    by (auto simp: dcache_wf_def list_all_iff)
  with dentry_ref_Inr [OF rf] have len: "d < length (dentries sb)" by simp
  show "d < length (dentries s1)" using len s1 by simp
  show "\<exists>rest. dcache_inuse s1 = d # rest" using s1 by simp
  show "dentries s1 ! d = zero_dentry\<lparr>d_fs := d_fs (dentries s1 ! d), d_refcount := 1,
            d_parent := Some parent, d_inode := None, d_flags := {}, d_entry := entry\<rparr>"
    using len s1 by simp
qed

lemma dcache_miss_then_pending:
  assumes wf: "dcache_wf s"
    and miss: "find (dentry_matches s parent entry) (dcache_inuse s) = None"
    and res: "dcache_lookup s parent entry = Inr (Some d, s1)"
  shows "dcache_lookup s1 parent entry = Inr (None, s1) \<and>
         (\<exists>s2 s3. dcache_set_inode s1 d (Some i) = Inr s2 \<and>
                   dcache_lookup s2 parent entry = Inr (Some d, s3) \<and>
                   d_refcount (dentries s3 ! d) = 2)"
proof -
  note m = dcache_lookup_miss [OF wf miss res]
  from m(2) obtain rest where rest: "dcache_inuse s1 = d # rest" by blast
  have e: "d_parent (dentries s1 ! d) = Some parent" "d_entry (dentries s1 ! d) = entry"
    "d_inode (dentries s1 ! d) = None" "d_flags (dentries s1 ! d) = {}"
    "d_refcount (dentries s1 ! d) = 1"
    by (subst m(3), simp)+
  have first: "dcache_lookup s1 parent entry = Inr (None, s1)"
    using rest e by (simp add: dcache_lookup_def dentry_matches_def dentry_pending_def)
  define s2 where "s2 = (vfs_ref_inode s1 i)\<lparr>dentries := (dentries s1)
      [d := (dentries s1 ! d)\<lparr>d_inode := Some i, d_flags := {}\<rparr>]\<rparr>"
  have set: "dcache_set_inode s1 d (Some i) = Inr s2"
    using m(1) e by (simp add: dcache_set_inode_def s2_def vfs_ref_inode_def)
  have s2i: "dcache_inuse s2 = d # rest" using rest by (simp add: s2_def vfs_ref_inode_def)
  have s2d: "dentries s2 ! d = (dentries s1 ! d)\<lparr>d_inode := Some i, d_flags := {}\<rparr>"
    "length (dentries s2) = length (dentries s1)"
    using m(1) by (simp_all add: s2_def vfs_ref_inode_def)
  have "\<exists>s3. dcache_lookup s2 parent entry = Inr (Some d, s3) \<and> d_refcount (dentries s3 ! d) = 2"
    using s2i s2d e m(1)
    by (simp add: dcache_lookup_def dentry_matches_def dentry_pending_def)
  with first set show ?thesis by blast
qed

text \<open>
  Claim C8. In a well-formed cache, \<open>dcache_lookup parent entry\<close> returns the null
  pointer if and only if the in-use queue holds an entry for \<open>(parent, entry)\<close> whose
  inode is null and whose Negative flag is clear; every other outcome is a dentry or a
  panic. After a miss has made the entry \<open>d\<close>, a second lookup returns the null pointer
  until \<open>dcache_set_inode\<close> has been called on \<open>d\<close>; the lookup after that returns \<open>d\<close>
  with the reference count 2.
\<close>

theorem dcache_lookup_none_iff_pending:
  assumes "dcache_wf s"
  shows "((\<exists>s'. dcache_lookup s parent entry = Inr (None, s')) \<longleftrightarrow>
          (\<exists>d\<in>set (dcache_inuse s). dentry_matches s parent entry d \<and> dentry_pending s d)) \<and>
         (\<forall>d s1 i. find (dentry_matches s parent entry) (dcache_inuse s) = None \<and>
                    dcache_lookup s parent entry = Inr (Some d, s1) \<longrightarrow>
            dcache_lookup s1 parent entry = Inr (None, s1) \<and>
            (\<exists>s2 s3. dcache_set_inode s1 d (Some i) = Inr s2 \<and>
                      dcache_lookup s2 parent entry = Inr (Some d, s3) \<and>
                      d_refcount (dentries s3 ! d) = 2))"
  using dcache_lookup_none_iff [OF assms] dcache_miss_then_pending [OF assms] by blast

lemmas dcache_eval =
  dcache_lookup_def dentry_matches_def dentry_pending_def dcache_find_entry_to_use_def
  dentry_ref_def dentry_reclaimable_def dentry_drop_inode_def dcache_set_inode_def
  dentry_deref_def dentry_unlink_def vfs_ref_inode_def vfs_deref_inode_def zero_dentry_def
  dcache_create_root_dentry_def dcache_init_def dcache_order_def dcache_wf_def dc_root_def
  dc_ab_def dc_idle_def Let_def

lemma dc_root_created: "dcache_create_root_dentry (dcache_init 3 (\<lambda>_. 1)) 9 = Inr (0, dc_root)"
  by (simp add: dcache_eval upt_rec numeral_3_eq_3)

lemma dc_ab_reached:
  "\<exists>s1 s2 s3. dcache_lookup dc_root 0 ''a'' = Inr (Some 1, s1) \<and>
     dcache_set_inode s1 1 (Some 7) = Inr s2 \<and>
     dcache_lookup s2 0 ''b'' = Inr (Some 2, s3) \<and>
     dcache_set_inode s3 2 (Some 8) = Inr dc_ab"
  by (simp add: dcache_eval fun_upd_twist)

lemma dc_idle_reached:
  "\<exists>s1. dentry_deref dc_ab 1 = Inr s1 \<and> dentry_deref s1 2 = Inr dc_idle"
  by (simp add: dcache_eval)

text \<open>The two-caller scenario on the name ``x'' under the root, slot 1 being the new entry.\<close>

theorem dcache_lookup_none_iff_pending_witness:
  "dcache_wf dc_root \<and>
   find (dentry_matches dc_root 0 ''x'') (dcache_inuse dc_root) = None \<and>
   (\<exists>s1. dcache_lookup dc_root 0 ''x'' = Inr (Some 1, s1) \<and>
      dcache_wf s1 \<and>
      (\<exists>d\<in>set (dcache_inuse s1). dentry_matches s1 0 ''x'' d \<and> dentry_pending s1 d) \<and>
      dcache_lookup s1 0 ''x'' = Inr (None, s1) \<and>
      (\<exists>s2 s3. dcache_set_inode s1 1 (Some 7) = Inr s2 \<and>
         dcache_lookup s2 0 ''x'' = Inr (Some 1, s3) \<and> d_refcount (dentries s3 ! 1) = 2))"
  using dcache_lookup_none_iff_pending [of dc_root 0 "''x''"]
  by (simp add: dcache_eval)

lemma find_append_first:
  "list_all (\<lambda>a. \<not> P a) as \<Longrightarrow> P v \<Longrightarrow> find P (as @ v # bs) = Some v"
  by (induction as) auto

lemma find_Some_splitD:
  "find P xs = Some v \<Longrightarrow> \<exists>as bs. xs = as @ v # bs \<and> P v \<and> list_all (\<lambda>a. \<not> P a) as"
proof (induction xs)
  case Nil
  then show ?case by simp
next
  case (Cons x xs)
  show ?case
  proof (cases "P x")
    case True
    with Cons.prems have "x # xs = [] @ v # xs \<and> P v \<and> list_all (\<lambda>a. \<not> P a) []" by simp
    then show ?thesis by blast
  next
    case False
    with Cons.prems have "find P xs = Some v" by simp
    from Cons.IH [OF this] obtain as bs
      where "xs = as @ v # bs" "P v" "list_all (\<lambda>a. \<not> P a) as" by blast
    with False have "x # xs = (x # as) @ v # bs \<and> P v \<and> list_all (\<lambda>a. \<not> P a) (x # as)"
      by simp
    then show ?thesis by blast
  qed
qed

lemma find_Some_split:
  "find P xs = Some v \<longleftrightarrow> (\<exists>as bs. xs = as @ v # bs \<and> P v \<and> list_all (\<lambda>a. \<not> P a) as)"
proof
  assume "find P xs = Some v"
  then show "\<exists>as bs. xs = as @ v # bs \<and> P v \<and> list_all (\<lambda>a. \<not> P a) as"
    by (rule find_Some_splitD)
next
  assume "\<exists>as bs. xs = as @ v # bs \<and> P v \<and> list_all (\<lambda>a. \<not> P a) as"
  then show "find P xs = Some v"
    by (auto simp: find_append_first)
qed

lemma find_rev_Some_split:
  "find P (rev xs) = Some v \<longleftrightarrow> (\<exists>ys zs. xs = ys @ v # zs \<and> P v \<and> list_all (\<lambda>z. \<not> P z) zs)"
proof -
  have "find P (rev xs) = Some v \<longleftrightarrow>
        (\<exists>as bs. rev xs = as @ v # bs \<and> P v \<and> list_all (\<lambda>a. \<not> P a) as)"
    by (rule find_Some_split)
  also have "\<dots> \<longleftrightarrow> (\<exists>ys zs. xs = ys @ v # zs \<and> P v \<and> list_all (\<lambda>z. \<not> P z) zs)"
  proof
    assume "\<exists>as bs. rev xs = as @ v # bs \<and> P v \<and> list_all (\<lambda>a. \<not> P a) as"
    then obtain as bs where r: "rev xs = as @ v # bs" and p: "P v" "list_all (\<lambda>a. \<not> P a) as"
      by blast
    from r have "xs = rev bs @ v # rev as" by (simp add: rev_swap)
    with p have "xs = rev bs @ v # rev as \<and> P v \<and> list_all (\<lambda>z. \<not> P z) (rev as)"
      by (simp add: list_all_iff)
    then show "\<exists>ys zs. xs = ys @ v # zs \<and> P v \<and> list_all (\<lambda>z. \<not> P z) zs"
      by blast
  next
    assume "\<exists>ys zs. xs = ys @ v # zs \<and> P v \<and> list_all (\<lambda>z. \<not> P z) zs"
    then obtain ys zs where r: "xs = ys @ v # zs" and p: "P v" "list_all (\<lambda>z. \<not> P z) zs"
      by blast
    from r have "rev xs = rev zs @ v # rev ys" by simp
    with p have "rev xs = rev zs @ v # rev ys \<and> P v \<and> list_all (\<lambda>a. \<not> P a) (rev zs)"
      by (simp add: list_all_iff)
    then show "\<exists>as bs. rev xs = as @ v # bs \<and> P v \<and> list_all (\<lambda>a. \<not> P a) as"
      by blast
  qed
  finally show ?thesis .
qed

lemma dcache_lookup_hit:
  assumes "find (dentry_matches s parent entry) (dcache_inuse s) = Some d"
    and "\<not> dentry_pending s d" and "d < length (dentries s)"
  shows "\<exists>s'. dcache_lookup s parent entry = Inr (Some d, s') \<and>
              dcache_inuse s' = d # remove1 d (dcache_inuse s) \<and>
              d_refcount (dentries s' ! d) = d_refcount (dentries s ! d) + 1"
  using assms by (simp add: dcache_lookup_def)

lemma dcache_reclaim_tail:
  assumes "dcache_free s = []"
  shows "fst (dcache_find_entry_to_use s) = Some v \<longleftrightarrow>
         (\<exists>ys zs. dcache_inuse s = ys @ v # zs \<and> dentry_reclaimable s v \<and>
                   list_all (\<lambda>z. \<not> dentry_reclaimable s z) zs)"
proof -
  have "fst (dcache_find_entry_to_use s) = Some v \<longleftrightarrow>
        find (dentry_reclaimable s) (rev (dcache_inuse s)) = Some v"
    using assms by (auto simp: dcache_find_entry_to_use_def split: option.splits)
  then show ?thesis by (simp add: find_rev_Some_split)
qed

lemma dcache_reclaim_removes:
  assumes "dcache_free s = []" and "fst (dcache_find_entry_to_use s) = Some v"
  shows "dcache_inuse (snd (dcache_find_entry_to_use s)) = remove1 v (dcache_inuse s)"
  using assms
  by (auto simp: dcache_find_entry_to_use_def dentry_drop_inode_def vfs_deref_inode_def
      split: option.splits)

text \<open>
  Claim C9, as amended. A lookup whose scan finds a resolved entry moves that entry to the
  head of the in-use queue and increments its reference count. When the free-list is
  empty, \<open>dcache_find_entry_to_use\<close> takes the entry nearest the tail of the in-use queue
  whose reference count is 0 and whose Root flag is clear, and unlinks it from the queue.
\<close>

theorem dcache_lru_order:
  "(find (dentry_matches s parent entry) (dcache_inuse s) = Some d \<and> \<not> dentry_pending s d \<and>
    d < length (dentries s) \<longrightarrow>
      (\<exists>s'. dcache_lookup s parent entry = Inr (Some d, s') \<and>
            dcache_inuse s' = d # remove1 d (dcache_inuse s) \<and>
            d_refcount (dentries s' ! d) = d_refcount (dentries s ! d) + 1)) \<and>
   (dcache_free s = [] \<longrightarrow>
      (fst (dcache_find_entry_to_use s) = Some v \<longleftrightarrow>
         (\<exists>ys zs. dcache_inuse s = ys @ v # zs \<and> dentry_reclaimable s v \<and>
                   list_all (\<lambda>z. \<not> dentry_reclaimable s z) zs)) \<and>
      (fst (dcache_find_entry_to_use s) = Some v \<longrightarrow>
         dcache_inuse (snd (dcache_find_entry_to_use s)) = remove1 v (dcache_inuse s)))"
  using dcache_lookup_hit [of s parent entry d] dcache_reclaim_tail [of s v]
    dcache_reclaim_removes [of s v]
  by blast

text \<open>
  After the lookups of ``a'' and ``b'' under the root, each resolved by
  \<open>dcache_set_inode\<close> (the cache \<open>dc_ab\<close>), a lookup of ``a'' leaves the order a, b from
  the head. In \<open>dc_idle\<close> the scan from the tail passes the root and takes ``a'', the
  least recently used entry.
\<close>

theorem dcache_lru_order_witness:
  "find (dentry_matches dc_ab 0 ''a'') (dcache_inuse dc_ab) = Some 1 \<and>
   \<not> dentry_pending dc_ab 1 \<and> 1 < length (dentries dc_ab) \<and>
   (\<exists>s'. dcache_lookup dc_ab 0 ''a'' = Inr (Some 1, s') \<and>
         dcache_inuse s' = [1, 2, 0] \<and> dcache_order s' = [''a'', ''b'', ''/''] \<and>
         d_refcount (dentries s' ! 1) = 2) \<and>
   dcache_free dc_idle = [] \<and>
   dcache_inuse dc_idle = [2] @ 1 # [0] \<and> dentry_reclaimable dc_idle 1 \<and>
   list_all (\<lambda>z. \<not> dentry_reclaimable dc_idle z) [0] \<and>
   fst (dcache_find_entry_to_use dc_idle) = Some 1 \<and>
   dcache_inuse (snd (dcache_find_entry_to_use dc_idle)) = [2, 0]"
  using dcache_lru_order [of dc_ab 0 "''a''" 1] dcache_lru_order [of dc_idle 0 "''a''" 1 1]
  by (simp add: dcache_eval)

text \<open>
  Claim C9 as stated fails on three bare lookups: the entry made by the first lookup of
  ``a'' is still pending at the third, which returns the null pointer and moves nothing,
  so the order from the head is b, a.
\<close>

theorem dcache_pending_lookup_keeps_order:
  "\<exists>s1 s2. dcache_lookup dc_root 0 ''a'' = Inr (Some 1, s1) \<and>
     dcache_lookup s1 0 ''b'' = Inr (Some 2, s2) \<and>
     dcache_lookup s2 0 ''a'' = Inr (None, s2) \<and>
     dcache_order s2 = [''b'', ''a'', ''/'']"
  by (simp add: dcache_eval)

text \<open>
  Claim C4 at its failing input. The entry ``a'' (slot 1) is looked up under the root,
  resolved to the inode 7 and released. It stays on the in-use queue with its inode, but
  \<open>dentry_deref_locked\<close> has cleared its \<open>d_parent\<close>, so the next lookup of ``a'' under
  the root does not find it: it takes the fresh slot 2, whose inode is null.
\<close>

theorem dentry_deref_zero_not_rediscovered:
  "\<exists>s1 s2 s3 s4. dcache_lookup dc_root 0 ''a'' = Inr (Some 1, s1) \<and>
     dcache_set_inode s1 1 (Some 7) = Inr s2 \<and>
     dentry_deref s2 1 = Inr s3 \<and>
     d_refcount (dentries s3 ! 1) = 0 \<and> d_inode (dentries s3 ! 1) = Some 7 \<and>
     d_parent (dentries s3 ! 1) = None \<and>
     dcache_inuse s3 = [1, 0] \<and> dcache_free s3 = [2] \<and>
     dcache_lookup s3 0 ''a'' = Inr (Some 2, s4) \<and>
     d_inode (dentries s4 ! 2) = None \<and> dcache_inuse s4 = [2, 1, 0]"
  by (simp add: dcache_eval)

section \<open>USB mass storage\<close>

lemma uint_scast_nonneg:
  fixes x :: "32 word"
  assumes "0 \<le> sint x"
  shows "uint (scast x :: 64 word) = sint x"
proof -
  have "sint x < 2 ^ (LENGTH(32) - 1)" by (rule sint_lt)
  then have "sint x < 2 ^ 31" by simp
  also have "(2::int) ^ 31 < 2 ^ 64" by simp
  finally have lt: "sint x < 2 ^ 64" .
  have "uint (scast x :: 64 word) = take_bit LENGTH(64) (sint x)"
    by (simp only: scast_eq uint_word_of_int_eq)
  also have "\<dots> = take_bit 64 (sint x)" by simp
  also have "\<dots> = sint x" using assms lt by (rule take_bit_int_eq_self)
  finally show ?thesis .
qed

lemma sint_ucast_small:
  fixes l :: "64 word"
  assumes "uint l < 2 ^ 31"
  shows "sint (ucast l :: 32 word) = uint l"
proof -
  have "sint (ucast l :: 32 word) = signed_take_bit (LENGTH(32) - Suc 0) (uint l)"
    by (rule signed_ucast_eq)
  also have "\<dots> = signed_take_bit 31 (uint l)" by simp
  also have "\<dots> = uint l"
  proof (rule signed_take_bit_int_eq_self)
    have "- (2 ^ 31) \<le> (0::int)" by simp
    also have "0 \<le> uint l" by (rule uint_nonnegative)
    finally show "- (2 ^ 31) \<le> uint l" .
    show "uint l < 2 ^ 31" by (rule assms)
  qed
  finally show ?thesis .
qed

lemma scast_ucast_small:
  fixes l :: "64 word"
  assumes "uint l < 2 ^ 31"
  shows "(scast (ucast l :: 32 word) :: 64 word) = l"
proof -
  have "(scast (ucast l :: 32 word) :: 64 word) = word_of_int (sint (ucast l :: 32 word))"
    by (rule scast_eq)
  also have "\<dots> = word_of_int (uint l)" by (simp only: sint_ucast_small [OF assms])
  also have "\<dots> = l" by (rule word_of_int_uint)
  finally show ?thesis .
qed

lemma in_copy_len_min:
  assumes "0 \<le> sint (t_result_length (p_xfer (us_BulkIn s)))"
  shows "(scast (in_copy_len s) :: 64 word) =
         min (scast (t_result_length (p_xfer (us_BulkIn s)))) (in_left s)"
proof (cases "in_left s < scast (t_result_length (p_xfer (us_BulkIn s)))")
  case True
  let ?r = "t_result_length (p_xfer (us_BulkIn s))"
  have "uint (in_left s) < uint (scast ?r :: 64 word)" using True by (simp add: word_less_def)
  also have "\<dots> = sint ?r" using assms by (rule uint_scast_nonneg)
  also have "\<dots> < 2 ^ (LENGTH(32) - 1)" by (rule sint_lt)
  finally have "uint (in_left s) < 2 ^ 31" by simp
  then have "(scast (ucast (in_left s) :: 32 word) :: 64 word) = in_left s"
    by (rule scast_ucast_small)
  moreover from True have "\<not> scast ?r \<le> in_left s" by (simp add: not_le)
  ultimately show ?thesis using True by (simp add: in_copy_len_def min_def)
next
  case False
  then have "scast (t_result_length (p_xfer (us_BulkIn s))) \<le> in_left s" by (simp add: not_less)
  with False show ?thesis by (simp add: in_copy_len_def min_def)
qed

lemma in_copy_len_le_left:
  assumes "0 \<le> sint (t_result_length (p_xfer (us_BulkIn s)))"
  shows "(scast (in_copy_len s) :: 64 word) \<le> in_left s"
  by (simp add: in_copy_len_min [OF assms])

lemma memcpy_to_outside:
  "a < dst \<or> dst + k \<le> a \<Longrightarrow> memcpy_to m dst src k a = m a"
  by (auto simp: memcpy_to_def)

lemma OnPipeInCallback_step:
  assumes inv: "in_inv buf n s"
    and nonneg: "0 \<le> sint (t_result_length (p_xfer (us_BulkIn s)))"
  shows "in_inv buf n (OnPipeInCallback s)"
    and "a < buf \<or> buf + unat n \<le> a \<Longrightarrow> kmem (OnPipeInCallback s) a = kmem s a"
proof -
  show "in_inv buf n (OnPipeInCallback s)"
  proof (cases "us_output_buffer s")
    case None
    with inv show ?thesis by (simp add: OnPipeInCallback_def in_inv_def Let_def)
  next
    case (Some b)
    with inv have b: "b = buf" and len: "us_output_len s = n" and le: "us_output_filled s \<le> n"
      by (simp_all add: in_inv_def)
    let ?c = "scast (in_copy_len s) :: 64 word"
    have c: "?c \<le> n - us_output_filled s"
      using in_copy_len_le_left [OF nonneg] len by (simp add: in_left_def)
    have "unat ?c \<le> unat n - unat (us_output_filled s)"
      using c le by (simp add: word_le_nat_alt unat_sub)
    then have sum: "unat (us_output_filled s) + unat ?c \<le> unat n"
      using le by (simp add: word_le_nat_alt)
    have "unat n < 2 ^ LENGTH(64)" by (rule unsigned_less)
    with sum have "unat (us_output_filled s) + unat ?c < 2 ^ LENGTH(64)" by linarith
    then have "unat (us_output_filled s + ?c) = unat (us_output_filled s) + unat ?c"
      by (rule unat_add_lem [THEN iffD1])
    with sum have "us_output_filled s + ?c \<le> n" by (simp add: word_le_nat_alt)
    then show ?thesis
      using Some b len by (simp add: OnPipeInCallback_def in_inv_def Let_def pipe_start_def)
  qed
next
  assume out: "a < buf \<or> buf + unat n \<le> a"
  show "kmem (OnPipeInCallback s) a = kmem s a"
  proof (cases "us_output_buffer s")
    case None
    then show ?thesis by (simp add: OnPipeInCallback_def Let_def)
  next
    case (Some b)
    with inv have b: "b = buf" and len: "us_output_len s = n" and le: "us_output_filled s \<le> n"
      by (simp_all add: in_inv_def)
    let ?c = "scast (in_copy_len s) :: 64 word"
    have c: "?c \<le> n - us_output_filled s"
      using in_copy_len_le_left [OF nonneg] len by (simp add: in_left_def)
    have "unat ?c \<le> unat n - unat (us_output_filled s)"
      using c le by (simp add: word_le_nat_alt unat_sub)
    then have sum: "unat (us_output_filled s) + unat ?c \<le> unat n"
      using le by (simp add: word_le_nat_alt)
    have "a < buf + unat (us_output_filled s) \<or> buf + unat (us_output_filled s) + unat ?c \<le> a"
      using out sum by linarith
    then have "memcpy_to (kmem s) (buf + unat (us_output_filled s))
                 (t_data (p_xfer (us_BulkIn s))) (unat ?c) a = kmem s a"
      by (rule memcpy_to_outside)
    then show ?thesis
      using Some b by (simp add: OnPipeInCallback_def Let_def pipe_start_def)
  qed
qed

lemma bulk_in_complete_step:
  assumes inv: "in_inv buf n s" and nonneg: "0 \<le> sint (snd c)"
  shows "in_inv buf n (bulk_in_complete s c)"
    and "a < buf \<or> buf + unat n \<le> a \<Longrightarrow> kmem (bulk_in_complete s c) a = kmem s a"
proof -
  let ?s = "s\<lparr>us_BulkIn := (us_BulkIn s)\<lparr>p_xfer := (p_xfer (us_BulkIn s))
             \<lparr>t_data := fst c, t_result_length := snd c\<rparr>\<rparr>\<rparr>"
  have i: "in_inv buf n ?s" using inv by (simp add: in_inv_def split: option.splits)
  have n: "0 \<le> sint (t_result_length (p_xfer (us_BulkIn ?s)))" using nonneg by simp
  show "in_inv buf n (bulk_in_complete s c)"
    using OnPipeInCallback_step(1) [OF i n] by (simp add: bulk_in_complete_def)
  show "kmem (bulk_in_complete s c) a = kmem s a" if "a < buf \<or> buf + unat n \<le> a"
    using OnPipeInCallback_step(2) [OF i n that] by (simp add: bulk_in_complete_def)
qed

lemma bulk_in_completions_inv:
  assumes "in_inv buf n s" and "list_all (\<lambda>c. 0 \<le> sint (snd c)) cs"
  shows "in_inv buf n (bulk_in_completions s cs) \<and>
         (a < buf \<or> buf + unat n \<le> a \<longrightarrow> kmem (bulk_in_completions s cs) a = kmem s a)"
  using assms
proof (induction cs arbitrary: s)
  case Nil
  then show ?case by (simp add: bulk_in_completions_def)
next
  case (Cons c cs)
  from Cons.prems have nn: "0 \<le> sint (snd c)" and rest: "list_all (\<lambda>c. 0 \<le> sint (snd c)) cs"
    by simp_all
  note step = bulk_in_complete_step [OF Cons.prems(1) nn]
  from Cons.IH [OF step(1) rest] step(2) [of a]
  show ?case by (auto simp: bulk_in_completions_def)
qed

text \<open>
  Claim C10. In a bulk-in callback whose transfer reports a length that is not negative,
  the number of bytes copied into the result buffer is the smaller of that length and
  of the space remaining (requested length minus bytes already filled). Hence, from the
  state in which a request has armed the buffer, over any sequence of bulk-in
  completions the bytes filled never exceed the requested length and no byte of memory
  outside the buffer changes.
\<close>

theorem bulk_in_copy_clamped:
  "(0 \<le> sint (t_result_length (p_xfer (us_BulkIn s))) \<longrightarrow>
      (scast (in_copy_len s) :: 64 word) =
        min (scast (t_result_length (p_xfer (us_BulkIn s)))) (us_output_len s - us_output_filled s)) \<and>
   (us_output_buffer s = Some buf \<and> us_output_filled s = 0 \<and>
    list_all (\<lambda>c. 0 \<le> sint (snd c)) cs \<longrightarrow>
      us_output_filled (bulk_in_completions s cs) \<le> us_output_len s \<and>
      (\<forall>a. a < buf \<or> buf + unat (us_output_len s) \<le> a \<longrightarrow>
           kmem (bulk_in_completions s cs) a = kmem s a))"
proof (intro conjI impI)
  assume "0 \<le> sint (t_result_length (p_xfer (us_BulkIn s)))"
  then show "(scast (in_copy_len s) :: 64 word) =
        min (scast (t_result_length (p_xfer (us_BulkIn s)))) (us_output_len s - us_output_filled s)"
    using in_copy_len_min [of s] by (simp add: in_left_def)
next
  assume a: "us_output_buffer s = Some buf \<and> us_output_filled s = 0 \<and>
    list_all (\<lambda>c. 0 \<le> sint (snd c)) cs"
  then have inv: "in_inv buf (us_output_len s) s" by (simp add: in_inv_def)
  from a have nn: "list_all (\<lambda>c. 0 \<le> sint (snd c)) cs" by simp
  from bulk_in_completions_inv [OF inv nn]
  show "us_output_filled (bulk_in_completions s cs) \<le> us_output_len s"
    by (simp add: in_inv_def)
  from bulk_in_completions_inv [OF inv nn]
  show "\<forall>a. a < buf \<or> buf + unat (us_output_len s) \<le> a \<longrightarrow>
           kmem (bulk_in_completions s cs) a = kmem s a"
    by blast
qed

lemma pipe_complete_Some:
  "0 < p_starts p \<Longrightarrow> pipe_complete p = Some (p\<lparr>p_starts := p_starts p - 1\<rparr>)"
  by (simp add: pipe_complete_def)

lemma scsi_wait_signalled:
  "0 < us_signal_sem s \<Longrightarrow> scsi_wait s cs = Some (s\<lparr>us_signal_sem := 0\<rparr>)"
  by simp

lemma scsi_wait_step:
  "us_signal_sem s = 0 \<Longrightarrow> 0 < p_starts (us_BulkIn s) \<Longrightarrow>
   scsi_wait s (c # cs) =
     scsi_wait (bulk_in_complete (s\<lparr>us_BulkIn := (us_BulkIn s)\<lparr>p_starts := p_starts (us_BulkIn s) - 1\<rparr>\<rparr>) c) cs"
  by (simp add: pipe_complete_def)

text \<open>A completion that is taken for data, and one that is taken for the status wrapper.\<close>

lemma bulk_in_complete_data:
  assumes buf: "us_output_buffer s = Some buf" and nn: "0 \<le> sint (snd c)"
  shows "us_output_buffer (bulk_in_complete s c) =
           (if in_left s \<le> scast (snd c) then None else Some buf)"
    and "\<not> in_left s \<le> scast (snd c) \<Longrightarrow>
           in_left (bulk_in_complete s c) = in_left s - scast (snd c)"
    and "us_signal_sem (bulk_in_complete s c) = us_signal_sem s"
    and "p_starts (us_BulkIn (bulk_in_complete s c)) = Suc (p_starts (us_BulkIn s))"
    and "us_result_ptr (bulk_in_complete s c) = us_result_ptr s"
    and "us_csw_ptr (bulk_in_complete s c) = us_csw_ptr s"
    and "req_err (bulk_in_complete s c) = req_err s"
    and "us_BulkOut (bulk_in_complete s c) = us_BulkOut s"
proof -
  let ?s = "s\<lparr>us_BulkIn := (us_BulkIn s)\<lparr>p_xfer := (p_xfer (us_BulkIn s))
             \<lparr>t_data := fst c, t_result_length := snd c\<rparr>\<rparr>\<rparr>"
  have l: "in_left ?s = in_left s" by (simp add: in_left_def)
  have "0 \<le> sint (t_result_length (p_xfer (us_BulkIn ?s)))" using nn by simp
  from in_copy_len_min [OF this]
  have len: "(scast (in_copy_len ?s) :: 64 word) = min (scast (snd c)) (in_left s)"
    by (simp add: l)
  have z: "in_left s - min (scast (snd c)) (in_left s) = 0 \<longleftrightarrow> in_left s \<le> scast (snd c)"
  proof (cases "(scast (snd c) :: 64 word) \<le> in_left s")
    case True
    then show ?thesis by (auto simp: min_def)
  next
    case False
    then have "in_left s \<le> scast (snd c)" by simp
    with False show ?thesis by (simp add: min_def)
  qed
  show "us_output_buffer (bulk_in_complete s c) =
           (if in_left s \<le> scast (snd c) then None else Some buf)"
    using buf z by (simp add: bulk_in_complete_def OnPipeInCallback_def Let_def len l pipe_start_def)
  show "in_left (bulk_in_complete s c) = in_left s - scast (snd c)"
    if "\<not> in_left s \<le> scast (snd c)"
  proof -
    from that have "(scast (snd c) :: 64 word) \<le> in_left s" by simp
    then have m: "min (scast (snd c)) (in_left s) = scast (snd c)" by (simp add: min_def)
    from that z have nz: "in_left s - min (scast (snd c)) (in_left s) \<noteq> 0" by simp
    show ?thesis
      using buf nz m
      by (simp add: bulk_in_complete_def OnPipeInCallback_def Let_def len l pipe_start_def)
         (simp add: in_left_def)
  qed
  show "us_signal_sem (bulk_in_complete s c) = us_signal_sem s"
    "p_starts (us_BulkIn (bulk_in_complete s c)) = Suc (p_starts (us_BulkIn s))"
    "us_result_ptr (bulk_in_complete s c) = us_result_ptr s"
    "us_csw_ptr (bulk_in_complete s c) = us_csw_ptr s"
    "req_err (bulk_in_complete s c) = req_err s"
    "us_BulkOut (bulk_in_complete s c) = us_BulkOut s"
    using buf by (simp_all add: bulk_in_complete_def OnPipeInCallback_def Let_def pipe_start_def)
qed

lemma bulk_in_complete_status:
  assumes "us_output_buffer s = None" and "us_csw_ptr s" and "us_result_ptr s"
  shows "req_err (bulk_in_complete s (bytes, sizeof_CSW)) = Success"
    and "req_csw (bulk_in_complete s (bytes, sizeof_CSW)) = csw_of_bytes bytes"
    and "us_signal_sem (bulk_in_complete s (bytes, sizeof_CSW)) = Suc (us_signal_sem s)"
    and "us_BulkOut (bulk_in_complete s (bytes, sizeof_CSW)) = us_BulkOut s"
  using assms by (simp_all add: bulk_in_complete_def OnPipeInCallback_def Let_def)

text \<open>The wait runs through the data phase and leaves the driver expecting the status.\<close>

lemma scsi_wait_data_phase:
  assumes "data_phase left ds" and "us_output_buffer s = Some buf" and "in_left s = left"
    and "us_signal_sem s = 0" and "0 < p_starts (us_BulkIn s)"
  shows "\<exists>s'. scsi_wait s (ds @ cs) = scsi_wait s' cs \<and> us_output_buffer s' = None \<and>
           us_signal_sem s' = 0 \<and> 0 < p_starts (us_BulkIn s') \<and>
           us_result_ptr s' = us_result_ptr s \<and> us_csw_ptr s' = us_csw_ptr s \<and>
           req_err s' = req_err s \<and> us_BulkOut s' = us_BulkOut s"
  using assms
proof (induction ds arbitrary: left s)
  case Nil
  then show ?case by simp
next
  case (Cons c ds)
  let ?s0 = "s\<lparr>us_BulkIn := (us_BulkIn s)\<lparr>p_starts := p_starts (us_BulkIn s) - 1\<rparr>\<rparr>"
  let ?s1 = "bulk_in_complete ?s0 c"
  from Cons.prems have nn: "0 \<le> sint (snd c)" by simp
  have b0: "us_output_buffer ?s0 = Some buf" using Cons.prems by simp
  have l0: "in_left ?s0 = left" using Cons.prems by (simp add: in_left_def)
  note d = bulk_in_complete_data [OF b0 nn]
  have step: "scsi_wait s ((c # ds) @ cs) = scsi_wait ?s1 (ds @ cs)"
    using scsi_wait_step [OF Cons.prems(4,5)] by simp
  have keep: "us_signal_sem ?s1 = 0" "0 < p_starts (us_BulkIn ?s1)"
    "us_result_ptr ?s1 = us_result_ptr s" "us_csw_ptr ?s1 = us_csw_ptr s"
    "req_err ?s1 = req_err s" "us_BulkOut ?s1 = us_BulkOut s"
    using d(3-8) Cons.prems(4) by simp_all
  show ?case
  proof (cases "left \<le> scast (snd c)")
    case True
    with Cons.prems(1) have "ds = []" by simp
    moreover from True d(1) l0 have "us_output_buffer ?s1 = None" by simp
    ultimately show ?thesis using step keep by auto
  next
    case False
    with Cons.prems(1) have dp: "data_phase (left - scast (snd c)) ds" by simp
    from False d(1) l0 have b1: "us_output_buffer ?s1 = Some buf" by simp
    from False d(2) l0 have l1: "in_left ?s1 = left - scast (snd c)" by simp
    from Cons.IH [OF dp b1 l1 keep(1,2)] obtain s' where
      "scsi_wait ?s1 (ds @ cs) = scsi_wait s' cs" "us_output_buffer s' = None"
      "us_signal_sem s' = 0" "0 < p_starts (us_BulkIn s')"
      "us_result_ptr s' = us_result_ptr ?s1" "us_csw_ptr s' = us_csw_ptr ?s1"
      "req_err s' = req_err ?s1" "us_BulkOut s' = us_BulkOut ?s1" by blast
    with step keep show ?thesis by auto
  qed
qed

lemma scsi_wait_status:
  assumes "us_output_buffer s = None" and "us_csw_ptr s" and "us_result_ptr s"
    and "us_signal_sem s = 0" and "0 < p_starts (us_BulkIn s)"
  shows "\<exists>s2. scsi_wait s ((bytes, sizeof_CSW) # tl_cs) = Some s2 \<and> req_err s2 = Success \<and>
           req_csw s2 = csw_of_bytes bytes \<and> us_BulkOut s2 = us_BulkOut s \<and> us_signal_sem s2 = 0"
proof -
  let ?s0 = "s\<lparr>us_BulkIn := (us_BulkIn s)\<lparr>p_starts := p_starts (us_BulkIn s) - 1\<rparr>\<rparr>"
  let ?s1 = "bulk_in_complete ?s0 (bytes, sizeof_CSW)"
  have a: "us_output_buffer ?s0 = None" "us_csw_ptr ?s0" "us_result_ptr ?s0" using assms by simp_all
  note st = bulk_in_complete_status [OF a, of bytes]
  have "scsi_wait s ((bytes, sizeof_CSW) # tl_cs) = scsi_wait ?s1 tl_cs"
    using scsi_wait_step [OF assms(4,5)] .
  also have "\<dots> = Some (?s1\<lparr>us_signal_sem := 0\<rparr>)"
    using st(3) by (intro scsi_wait_signalled) simp
  finally show ?thesis using st by simp
qed

lemma scsi_build_cbw_Inr:
  assumes "cb_len = 6 \<or> cb_len = 10"
  shows "\<exists>cbw. scsi_build_cbw h lun dir cb cb_len result_len = Inr cbw"
  using assms by (auto simp: scsi_build_cbw_def Let_def)

lemma scsi_submit_Inr:
  assumes cdb: "cb_len = 6 \<or> cb_len = 10" and res: "result_len = None \<or> result \<noteq> None"
  shows "\<exists>cbw s1. scsi_submit h s lun dir cb cb_len result result_len = Inr (cbw, s1) \<and>
           us_output_buffer s1 = result \<and> us_output_filled s1 = 0 \<and>
           us_output_len s1 = (case result_len of None \<Rightarrow> 0 | Some n \<Rightarrow> n) \<and>
           us_result_ptr s1 \<and> us_csw_ptr s1 \<and> req_err s1 = UNKNOWN \<and>
           us_signal_sem s1 = us_signal_sem s \<and> us_BulkIn s1 = us_BulkIn s \<and>
           0 < p_starts (us_BulkOut s1) \<and> t_length (p_xfer (us_BulkOut s1)) = sizeof_CBW \<and>
           t_data (p_xfer (us_BulkOut s1)) = cbw_bytes cbw @ drop 31 (t_data (p_xfer (us_BulkOut s))) \<and>
           d_cbw_signature cbw = USBSTORAGE_CBW_SIGNATURE"
proof -
  from scsi_build_cbw_Inr [OF cdb] obtain cbw where
    b: "scsi_build_cbw h lun dir cb cb_len result_len = Inr cbw" by blast
  then have sig: "d_cbw_signature cbw = USBSTORAGE_CBW_SIGNATURE"
    by (auto simp: scsi_build_cbw_def Let_def split: if_splits)
  show ?thesis using res b sig by (auto simp: scsi_submit_def pipe_start_def)
qed

lemma bulk_out_complete_Some:
  assumes "0 < p_starts (us_BulkOut s)"
  shows "\<exists>s'. bulk_out_complete s = Some s' \<and> 0 < p_starts (us_BulkIn s') \<and>
           us_output_buffer s' = us_output_buffer s \<and> in_left s' = in_left s \<and>
           us_signal_sem s' = us_signal_sem s \<and> us_result_ptr s' = us_result_ptr s \<and>
           us_csw_ptr s' = us_csw_ptr s \<and> req_err s' = req_err s \<and>
           p_xfer (us_BulkOut s') = p_xfer (us_BulkOut s)"
  using assms
  by (simp add: bulk_out_complete_def pipe_complete_def OnPipeOutCallback_def pipe_start_def
      in_left_def)

lemma scsi_build_cbw_tag:
  "scsi_build_cbw h lun dir cb cb_len result_len = Inr cbw \<Longrightarrow>
   d_cbw_tag cbw = 0 \<and> d_cbw_signature cbw = USBSTORAGE_CBW_SIGNATURE"
  by (auto simp: scsi_build_cbw_def Let_def split: if_splits)

lemma le32_join:
  fixes w :: "32 word"
  shows "ucast (ucast w :: 8 word) OR push_bit 8 (ucast (ucast (drop_bit 8 w) :: 8 word)) OR
     push_bit 16 (ucast (ucast (drop_bit 16 w) :: 8 word)) OR
     push_bit 24 (ucast (ucast (drop_bit 24 w) :: 8 word)) = w"
proof (rule bit_word_eqI)
  fix n :: nat
  assume "n < LENGTH(32)"
  then have n: "n < 32" by simp
  consider "n < 8" | "8 \<le> n" "n < 16" | "16 \<le> n" "n < 24" | "24 \<le> n" "n < 32"
    using n by linarith
  then show "bit (ucast (ucast w :: 8 word) OR push_bit 8 (ucast (ucast (drop_bit 8 w) :: 8 word)) OR
     push_bit 16 (ucast (ucast (drop_bit 16 w) :: 8 word)) OR
     push_bit 24 (ucast (ucast (drop_bit 24 w) :: 8 word)) :: 32 word) n = bit w n"
    by cases (auto simp: bit_simps)
qed

lemma le32_at_bytes: "le32_at (le32_bytes w @ rest) 0 = w"
  using le32_join [of w] by (simp add: le32_at_def le32_bytes_def)

lemma le32_at_skip4: "le32_at (le32_bytes v @ rest) 4 = le32_at rest 0"
  by (simp add: le32_at_def le32_bytes_def numeral_2_eq_2)

lemma le32_at_cbw_tag: "le32_at (cbw_bytes cbw @ rest) 4 = d_cbw_tag cbw"
  by (simp add: cbw_bytes_def le32_at_skip4 le32_at_bytes)

lemma le32_at_cbw_signature: "le32_at (cbw_bytes cbw @ rest) 0 = d_cbw_signature cbw"
  by (simp add: cbw_bytes_def le32_at_bytes)

text \<open>
  Claim C6, as amended. A request is made on a device at rest (the semaphore is
  drained) with a command block of 6 or 10 bytes. When the device delivers the data
  phase of the request (\<open>data_phase_of\<close>: nothing for a request without a result
  buffer, otherwise completions that reach the requested result length) and then a
  completion of 13 bytes, the call returns, whatever the device delivers afterwards.
  It returns success if the signature in these 13 bytes is 0x53425355, their tag is
  the tag in the 31-byte command wrapper that was posted on the bulk-out pipe and their
  status is 0; in every other case it returns the IO error.
\<close>

theorem scsi_request_ok_iff_csw_valid:
  assumes idle: "us_signal_sem s = 0"
    and cdb: "cb_len = 6 \<or> cb_len = 10"
    and data: "data_phase_of result result_len ds"
  shows "\<exists>s2. PerformSCSIRequest h s lun dir cb cb_len result result_len
                 (ds @ (bytes, sizeof_CSW) # tl_cs) =
               Some (Inr (if d_csw_signature (csw_of_bytes bytes) = 0x53425355 \<and>
                             d_csw_tag (csw_of_bytes bytes) =
                               le32_at (t_data (p_xfer (us_BulkOut s2))) 4 \<and>
                             d_csw_status (csw_of_bytes bytes) = 0x00
                          then Success else IO, s2)) \<and>
              req_csw s2 = csw_of_bytes bytes \<and>
              t_length (p_xfer (us_BulkOut s2)) = sizeof_CBW \<and>
              le32_at (t_data (p_xfer (us_BulkOut s2))) 0 = USBSTORAGE_CBW_SIGNATURE \<and>
              us_signal_sem s2 = 0"
proof -
  from data have res: "result_len = None \<or> result \<noteq> None"
    by (auto simp: data_phase_of_def split: option.splits)
  from scsi_submit_Inr [OF cdb res, of h s lun dir cb] obtain cbw s1 where
    sub: "scsi_submit h s lun dir cb cb_len result result_len = Inr (cbw, s1)"
    and s1: "us_output_buffer s1 = result" "us_output_filled s1 = 0"
      "us_output_len s1 = (case result_len of None \<Rightarrow> 0 | Some n \<Rightarrow> n)"
      "us_result_ptr s1" "us_csw_ptr s1" "us_signal_sem s1 = us_signal_sem s"
      "0 < p_starts (us_BulkOut s1)" "t_length (p_xfer (us_BulkOut s1)) = sizeof_CBW"
      "t_data (p_xfer (us_BulkOut s1)) = cbw_bytes cbw @ drop 31 (t_data (p_xfer (us_BulkOut s)))"
      "d_cbw_signature cbw = USBSTORAGE_CBW_SIGNATURE"
    by blast
  from bulk_out_complete_Some [OF s1(7)] obtain s1' where
    out: "bulk_out_complete s1 = Some s1'"
    and s1': "0 < p_starts (us_BulkIn s1')" "us_output_buffer s1' = us_output_buffer s1"
      "in_left s1' = in_left s1" "us_signal_sem s1' = us_signal_sem s1"
      "us_result_ptr s1' = us_result_ptr s1" "us_csw_ptr s1' = us_csw_ptr s1"
      "p_xfer (us_BulkOut s1') = p_xfer (us_BulkOut s1)"
    by blast
  have "\<exists>sd. scsi_wait s1' (ds @ (bytes, sizeof_CSW) # tl_cs) =
               scsi_wait sd ((bytes, sizeof_CSW) # tl_cs) \<and>
             us_output_buffer sd = None \<and> us_signal_sem sd = 0 \<and> 0 < p_starts (us_BulkIn sd) \<and>
             us_result_ptr sd \<and> us_csw_ptr sd \<and> us_BulkOut sd = us_BulkOut s1'"
  proof (cases result)
    case None
    with data have "ds = []" by (simp add: data_phase_of_def)
    with None s1 s1' idle show ?thesis
      by (intro exI [of _ s1']) (simp del: scsi_wait.simps)
  next
    case (Some buf)
    with data have dp: "data_phase (case result_len of None \<Rightarrow> 0 | Some n \<Rightarrow> n) ds"
      by (simp add: data_phase_of_def)
    have b: "us_output_buffer s1' = Some buf" using Some s1 s1' by simp
    have l: "in_left s1' = (case result_len of None \<Rightarrow> 0 | Some n \<Rightarrow> n)"
      using s1 s1' by (simp add: in_left_def)
    have z: "us_signal_sem s1' = 0" using s1 s1' idle by simp
    from scsi_wait_data_phase [OF dp b l z s1'(1), of "(bytes, sizeof_CSW) # tl_cs"]
    obtain s' where "scsi_wait s1' (ds @ (bytes, sizeof_CSW) # tl_cs) =
        scsi_wait s' ((bytes, sizeof_CSW) # tl_cs)" "us_output_buffer s' = None"
      "us_signal_sem s' = 0" "0 < p_starts (us_BulkIn s')"
      "us_result_ptr s' = us_result_ptr s1'" "us_csw_ptr s' = us_csw_ptr s1'"
      "us_BulkOut s' = us_BulkOut s1'" by blast
    with s1 s1' show ?thesis
      by (intro exI [of _ s']) (simp del: scsi_wait.simps)
  qed
  then obtain sd where
    run: "scsi_wait s1' (ds @ (bytes, sizeof_CSW) # tl_cs) = scsi_wait sd ((bytes, sizeof_CSW) # tl_cs)"
    and sd: "us_output_buffer sd = None" "us_csw_ptr sd" "us_result_ptr sd"
      "us_signal_sem sd = 0" "0 < p_starts (us_BulkIn sd)"
    and sdo: "us_BulkOut sd = us_BulkOut s1'"
    by blast
  from scsi_wait_status [OF sd, of bytes tl_cs] obtain s2 where
    w: "scsi_wait sd ((bytes, sizeof_CSW) # tl_cs) = Some s2"
    and s2: "req_err s2 = Success" "req_csw s2 = csw_of_bytes bytes"
      "us_BulkOut s2 = us_BulkOut sd" "us_signal_sem s2 = 0"
    by blast
  have posted: "t_data (p_xfer (us_BulkOut s2)) =
      cbw_bytes cbw @ drop 31 (t_data (p_xfer (us_BulkOut s)))"
    and plen: "t_length (p_xfer (us_BulkOut s2)) = sizeof_CBW"
    using s2(3) sdo s1'(7) s1(8,9) by simp_all
  have tag: "le32_at (t_data (p_xfer (us_BulkOut s2))) 4 = d_cbw_tag cbw"
    by (simp only: posted le32_at_cbw_tag)
  have sig: "le32_at (t_data (p_xfer (us_BulkOut s2))) 0 = USBSTORAGE_CBW_SIGNATURE"
    by (simp only: posted le32_at_cbw_signature s1(10))
  have "PerformSCSIRequest h s lun dir cb cb_len result result_len
          (ds @ (bytes, sizeof_CSW) # tl_cs) = Some (Inr (scsi_check cbw s2, s2))"
    using sub out run w by (simp add: PerformSCSIRequest_def del: scsi_wait.simps)
  moreover have "scsi_check cbw s2 =
      (if d_csw_signature (csw_of_bytes bytes) = 0x53425355 \<and>
          d_csw_tag (csw_of_bytes bytes) = le32_at (t_data (p_xfer (us_BulkOut s2))) 4 \<and>
          d_csw_status (csw_of_bytes bytes) = 0x00 then Success else IO)"
    using s2(1,2) tag
    by (simp add: scsi_check_def USBSTORAGE_CSW_SIGNATURE_def USBSTORAGE_CSW_STATUS_GOOD_def)
  ultimately have "PerformSCSIRequest h s lun dir cb cb_len result result_len
                 (ds @ (bytes, sizeof_CSW) # tl_cs) =
               Some (Inr (if d_csw_signature (csw_of_bytes bytes) = 0x53425355 \<and>
                             d_csw_tag (csw_of_bytes bytes) =
                               le32_at (t_data (p_xfer (us_BulkOut s2))) 4 \<and>
                             d_csw_status (csw_of_bytes bytes) = 0x00
                          then Success else IO, s2))"
    by (simp only:)
  with s2(2,4) plen sig show ?thesis by (intro exI [of _ s2] conjI)
qed

text \<open>
  Whatever the device delivers: a caller that is woken with \<open>err\<close> set to success was
  handed the 13 bytes of one of the completions as the status wrapper.
\<close>

lemma OnPipeInCallback_err:
  assumes "us_signal_sem (OnPipeInCallback s) = us_signal_sem s"
  shows "req_err (OnPipeInCallback s) = req_err s"
  using assms
  by (auto simp: OnPipeInCallback_def Let_def pipe_start_def split: option.splits if_splits)

lemma OnPipeInCallback_signal:
  assumes "us_signal_sem (OnPipeInCallback s) \<noteq> us_signal_sem s"
    and "req_err (OnPipeInCallback s) = Success"
  shows "t_result_length (p_xfer (us_BulkIn s)) = sizeof_CSW \<and>
         req_csw (OnPipeInCallback s) = csw_of_bytes (t_data (p_xfer (us_BulkIn s)))"
  using assms
  by (auto simp: OnPipeInCallback_def Let_def pipe_start_def split: option.splits if_splits)

lemma scsi_wait_csw:
  assumes "scsi_wait s cs = Some s2" and "req_err s \<noteq> Success" and "req_err s2 = Success"
  shows "\<exists>bytes. (bytes, sizeof_CSW) \<in> set cs \<and> req_csw s2 = csw_of_bytes bytes"
  using assms
proof (induction cs arbitrary: s)
  case Nil
  then show ?case by (auto split: if_splits)
next
  case (Cons c cs)
  show ?case
  proof (cases "0 < us_signal_sem s")
    case True
    with Cons.prems show ?thesis by auto
  next
    case False
    with Cons.prems(1) obtain p where p: "pipe_complete (us_BulkIn s) = Some p"
      by (cases "pipe_complete (us_BulkIn s)") simp_all
    let ?s0 = "s\<lparr>us_BulkIn := p\<lparr>p_xfer := (p_xfer p)
             \<lparr>t_data := fst c, t_result_length := snd c\<rparr>\<rparr>\<rparr>"
    let ?s' = "bulk_in_complete (s\<lparr>us_BulkIn := p\<rparr>) c"
    have s': "?s' = OnPipeInCallback ?s0" by (simp add: bulk_in_complete_def)
    from False p Cons.prems(1) have w: "scsi_wait ?s' cs = Some s2" by simp
    show ?thesis
    proof (cases "us_signal_sem ?s' = us_signal_sem ?s0")
      case True
      then have "req_err ?s' = req_err ?s0" unfolding s' by (rule OnPipeInCallback_err)
      then have "req_err ?s' \<noteq> Success" using Cons.prems(2) by simp
      from Cons.IH [OF w this Cons.prems(3)] show ?thesis by auto
    next
      case diff: False
      then have "0 < us_signal_sem ?s'" using False by simp
      then have "scsi_wait ?s' cs = Some (?s'\<lparr>us_signal_sem := 0\<rparr>)"
        by (rule scsi_wait_signalled)
      with w have s2: "s2 = ?s'\<lparr>us_signal_sem := 0\<rparr>" by simp
      then have "req_err ?s' = Success" using Cons.prems(3) by simp
      with diff have "t_result_length (p_xfer (us_BulkIn ?s0)) = sizeof_CSW \<and>
         req_csw ?s' = csw_of_bytes (t_data (p_xfer (us_BulkIn ?s0)))"
        unfolding s' by (intro OnPipeInCallback_signal) simp_all
      then have "snd c = sizeof_CSW" and "req_csw s2 = csw_of_bytes (fst c)"
        using s2 by simp_all
      then have "(fst c, sizeof_CSW) \<in> set (c # cs) \<and> req_csw s2 = csw_of_bytes (fst c)"
        by (cases c) simp
      then show ?thesis by blast
    qed
  qed
qed

lemma scsi_request_ok_needs_valid_csw:
  assumes "PerformSCSIRequest h s lun dir cb cb_len result result_len cs = Some (Inr (Success, s2))"
  shows "\<exists>bytes. (bytes, sizeof_CSW) \<in> set cs \<and>
           d_csw_signature (csw_of_bytes bytes) = USBSTORAGE_CSW_SIGNATURE \<and>
           d_csw_tag (csw_of_bytes bytes) = 0 \<and>
           d_csw_status (csw_of_bytes bytes) = USBSTORAGE_CSW_STATUS_GOOD"
proof -
  from assms obtain cbw s1 s1' where
    sub: "scsi_submit h s lun dir cb cb_len result result_len = Inr (cbw, s1)"
    and out: "bulk_out_complete s1 = Some s1'"
    and w: "scsi_wait s1' cs = Some s2"
    and chk: "scsi_check cbw s2 = Success"
    by (auto simp: PerformSCSIRequest_def simp del: scsi_wait.simps
        split: sum.splits option.splits prod.splits)
  from sub have e1: "req_err s1 = UNKNOWN" and tag: "d_cbw_tag cbw = 0"
    by (auto simp: scsi_submit_def scsi_build_cbw_def Let_def split: if_splits sum.splits)
  from out e1 have e1': "req_err s1' \<noteq> Success"
    by (auto simp: bulk_out_complete_def OnPipeOutCallback_def split: option.splits)
  from chk have ok: "req_err s2 = Success"
    and v: "d_csw_signature (req_csw s2) = USBSTORAGE_CSW_SIGNATURE"
      "d_csw_tag (req_csw s2) = d_cbw_tag cbw"
      "d_csw_status (req_csw s2) = USBSTORAGE_CSW_STATUS_GOOD"
    by (auto simp: scsi_check_def split: if_splits)
  from scsi_wait_csw [OF w e1' ok] v tag show ?thesis by auto
qed

lemmas us_eval =
  scsi_submit_def scsi_build_cbw_def PerformSCSIRequest_def OnPipeOutCallback_def bulk_out_complete_def pipe_complete_def
  OnPipeInCallback_def bulk_in_complete_def bulk_in_completions_def scsi_check_def
  in_copy_len_def in_left_def memcpy_to_def pipe_start_def csw_of_bytes_def le32_at_def
  le32_bytes_def cbw_bytes_def csw_wire_def sizeof_CSW_def sizeof_CBW_def us_idle_def
  scsi_layout_def read10_cdb_def USBSTORAGE_CSW_SIGNATURE_def USBSTORAGE_CBW_SIGNATURE_def
  USBSTORAGE_CSW_STATUS_GOOD_def USBSTORAGE_CBW_FLAG_DATA_IN_def
  USBSTORAGE_CBW_FLAG_DATA_OUT_def rd_cbw_def rd_armed_def rd_done_def Let_def

text \<open>
  The READ(10) scenario: the data phase delivers the four bytes, then a status wrapper
  with tag 0 and status 0 arrives and the request succeeds; with the tag 5 instead it
  fails with the IO error.
\<close>

theorem scsi_request_ok_iff_csw_valid_witness:
  "us_signal_sem us_idle = 0 \<and>
   data_phase_of (Some 100) (Some 4) [([1, 2, 3, 4], 4)] \<and>
   PerformSCSIRequest scsi_layout us_idle 0 D_In read10_cdb 10 (Some 100) (Some 4)
     [([1, 2, 3, 4], 4), (csw_wire 0 0, 13)] =
     Some (Inr (Success, rd_done [([1, 2, 3, 4], 4), (csw_wire 0 0, 13)])) \<and>
   le32_at (t_data (p_xfer (us_BulkOut (rd_done [([1, 2, 3, 4], 4), (csw_wire 0 0, 13)])))) 4 = 0 \<and>
   map (kmem (rd_done [([1, 2, 3, 4], 4), (csw_wire 0 0, 13)])) [100, 101, 102, 103] = [1, 2, 3, 4] \<and>
   PerformSCSIRequest scsi_layout us_idle 0 D_In read10_cdb 10 (Some 100) (Some 4)
     [([1, 2, 3, 4], 4), (csw_wire 5 0, 13)] =
     Some (Inr (IO, rd_done [([1, 2, 3, 4], 4), (csw_wire 5 0, 13)])) \<and>
   PerformSCSIRequest scsi_layout us_idle 0 D_In read10_cdb 10 (Some 100) (Some 4)
     [([1, 2, 3, 4], 4), (csw_wire 0 1, 13)] =
     Some (Inr (IO, rd_done [([1, 2, 3, 4], 4), (csw_wire 0 1, 13)]))"
proof -
  have idle: "us_signal_sem us_idle = 0" by (simp add: us_idle_def)
  have cdb: "(10 :: 64 word) = 6 \<or> (10 :: 64 word) = 10" by simp
  have dp: "data_phase_of (Some 100) (Some 4) [([1, 2, 3, 4], 4)]"
    by (simp add: data_phase_of_def)
  have r0: "PerformSCSIRequest scsi_layout us_idle 0 D_In read10_cdb 10 (Some 100) (Some 4)
     [([1, 2, 3, 4], 4), (csw_wire 0 0, 13)] =
     Some (Inr (Success, rd_done [([1, 2, 3, 4], 4), (csw_wire 0 0, 13)]))"
    by (simp add: us_eval)
  have t0: "le32_at (t_data (p_xfer (us_BulkOut (rd_done [([1, 2, 3, 4], 4), (csw_wire 0 0, 13)])))) 4 = 0"
    by (simp add: us_eval)
  have m0: "map (kmem (rd_done [([1, 2, 3, 4], 4), (csw_wire 0 0, 13)])) [100, 101, 102, 103] = [1, 2, 3, 4]"
    by (simp add: us_eval)
  have r5: "PerformSCSIRequest scsi_layout us_idle 0 D_In read10_cdb 10 (Some 100) (Some 4)
     [([1, 2, 3, 4], 4), (csw_wire 5 0, 13)] =
     Some (Inr (IO, rd_done [([1, 2, 3, 4], 4), (csw_wire 5 0, 13)]))"
    by (simp add: us_eval)
  have r1: "PerformSCSIRequest scsi_layout us_idle 0 D_In read10_cdb 10 (Some 100) (Some 4)
     [([1, 2, 3, 4], 4), (csw_wire 0 1, 13)] =
     Some (Inr (IO, rd_done [([1, 2, 3, 4], 4), (csw_wire 0 1, 13)]))"
    by (simp add: us_eval)
  show ?thesis
    using scsi_request_ok_iff_csw_valid [OF idle cdb dp, of scsi_layout 0 D_In read10_cdb "csw_wire 0 0" "[]"]
      idle dp r0 t0 m0 r5 r1
    by simp
qed

text \<open>
  Claim C6 as the spec states it fails when the data phase is short. The same request
  for four bytes, to which the device answers with two bytes of data and then a valid
  status wrapper of 13 bytes (signature 0x53425355, tag 0 as in the command wrapper,
  status 0): the 13 bytes are taken for data, the semaphore is never signalled and the
  call does not return.
\<close>

theorem scsi_request_short_data_never_returns:
  "d_csw_signature (csw_of_bytes (csw_wire 0 0)) = 0x53425355 \<and>
   d_csw_tag (csw_of_bytes (csw_wire 0 0)) = d_cbw_tag rd_cbw \<and>
   d_csw_status (csw_of_bytes (csw_wire 0 0)) = 0x00 \<and>
   PerformSCSIRequest scsi_layout us_idle 0 D_In read10_cdb 10 (Some 100) (Some 4)
     [([1, 2], 2), (csw_wire 0 0, 13)] = None"
  by (simp add: us_eval)

text \<open>
  The same request when the device delivers eight bytes instead of four: four bytes are
  copied, and the bytes next to the buffer (addresses 99 and 104) keep their value.
\<close>

theorem bulk_in_copy_clamped_witness:
  "0 \<le> sint (t_result_length (p_xfer (us_BulkIn
       (rd_armed\<lparr>us_BulkIn := \<lparr>p_xfer = \<lparr>t_data = [1, 2, 3, 4, 5, 6, 7, 8], t_length = 0,
           t_result_length = 8\<rparr>, p_starts = 1\<rparr>\<rparr>)))) \<and>
   (scast (in_copy_len
       (rd_armed\<lparr>us_BulkIn := \<lparr>p_xfer = \<lparr>t_data = [1, 2, 3, 4, 5, 6, 7, 8], t_length = 0,
           t_result_length = 8\<rparr>, p_starts = 1\<rparr>\<rparr>)) :: 64 word) = 4 \<and>
   us_output_buffer rd_armed = Some 100 \<and> us_output_filled rd_armed = 0 \<and>
   us_output_len rd_armed = 4 \<and>
   list_all (\<lambda>c. 0 \<le> sint (snd c)) [([1, 2, 3, 4, 5, 6, 7, 8], 8 :: 32 word)] \<and>
   us_output_filled (bulk_in_completions rd_armed [([1, 2, 3, 4, 5, 6, 7, 8], 8)]) = 4 \<and>
   map (kmem (bulk_in_completions rd_armed [([1, 2, 3, 4, 5, 6, 7, 8], 8)]))
     [99, 100, 101, 102, 103, 104] = [0, 1, 2, 3, 4, 0]"
  using bulk_in_copy_clamped
    [of "rd_armed\<lparr>us_BulkIn := \<lparr>p_xfer = \<lparr>t_data = [1, 2, 3, 4, 5, 6, 7, 8], t_length = 0,
           t_result_length = 8\<rparr>, p_starts = 1\<rparr>\<rparr>" 100 "[]"]
    bulk_in_copy_clamped [of rd_armed 100 "[([1, 2, 3, 4, 5, 6, 7, 8], 8)]"]
  by (simp add: us_eval)

section \<open>UHCI host controller driver\<close>

lemma CreateDataTDs_round_Inr:
  assumes "CreateDataTDs_round sz mps token ls ta i st = Inr st1"
  shows "\<exists>t. td_mem (lp_hcd st1) = td_mem (lp_hcd st) @ [t] \<and> td_next t = lp_link_td st"
    and "lp_link_td st1 = Some (length (td_mem (lp_hcd st)))"
    and "lp_last_td st1 = (if i = 0 then Some (length (td_mem (lp_hcd st))) else lp_last_td st)"
    and "uhci_qh_interrupt (lp_hcd st1) = uhci_qh_interrupt (lp_hcd st)"
    and "uhci_scheduled_items (lp_hcd st1) = uhci_scheduled_items (lp_hcd st)"
  using assms
  by (auto simp: CreateDataTDs_round_def AllocateTD_def split: list.splits)

lemma CreateDataTDs_loop_Inr:
  assumes "CreateDataTDs_loop k i sz mps token ls ta st = Inr st'"
  shows "length (td_mem (lp_hcd st')) = length (td_mem (lp_hcd st)) + k \<and>
         take (length (td_mem (lp_hcd st))) (td_mem (lp_hcd st')) = td_mem (lp_hcd st) \<and>
         (\<forall>j<k. td_next (td_mem (lp_hcd st') ! (length (td_mem (lp_hcd st)) + j)) =
                 (if j = 0 then lp_link_td st else Some (length (td_mem (lp_hcd st)) + j - 1))) \<and>
         lp_link_td st' =
           (if k = 0 then lp_link_td st else Some (length (td_mem (lp_hcd st)) + k - 1)) \<and>
         lp_last_td st' =
           (if i = 0 \<and> 0 < k then Some (length (td_mem (lp_hcd st))) else lp_last_td st) \<and>
         uhci_qh_interrupt (lp_hcd st') = uhci_qh_interrupt (lp_hcd st) \<and>
         uhci_scheduled_items (lp_hcd st') = uhci_scheduled_items (lp_hcd st)"
  using assms
proof (induction k arbitrary: i st)
  case 0
  then show ?case by simp
next
  case (Suc k)
  let ?b = "length (td_mem (lp_hcd st))"
  from Suc.prems obtain st1 where
    r: "CreateDataTDs_round sz mps token ls ta i st = Inr st1"
    and l: "CreateDataTDs_loop k (Suc i) sz mps token ls ta st1 = Inr st'"
    by (auto split: sum.splits)
  from CreateDataTDs_round_Inr(1) [OF r] obtain t where
    mem1: "td_mem (lp_hcd st1) = td_mem (lp_hcd st) @ [t]" and nxt: "td_next t = lp_link_td st"
    by blast
  note r2 = CreateDataTDs_round_Inr(2-5) [OF r]
  have b1: "length (td_mem (lp_hcd st1)) = Suc ?b" using mem1 by simp
  note ih = Suc.IH [OF l, unfolded b1]
  from ih have len: "length (td_mem (lp_hcd st')) = ?b + Suc k" by simp
  from ih have tk: "take (Suc ?b) (td_mem (lp_hcd st')) = td_mem (lp_hcd st) @ [t]"
    using mem1 by simp
  have "take ?b (take (Suc ?b) (td_mem (lp_hcd st'))) = take ?b (td_mem (lp_hcd st) @ [t])"
    by (simp only: tk)
  then have pre: "take ?b (td_mem (lp_hcd st')) = td_mem (lp_hcd st)" by simp
  have "take (Suc ?b) (td_mem (lp_hcd st')) ! ?b = (td_mem (lp_hcd st) @ [t]) ! ?b"
    by (simp only: tk)
  then have atb: "td_mem (lp_hcd st') ! ?b = t" by simp
  have chain: "td_next (td_mem (lp_hcd st') ! (?b + j)) =
                 (if j = 0 then lp_link_td st else Some (?b + j - 1))" if "j < Suc k" for j
  proof (cases j)
    case 0
    then show ?thesis using atb nxt by simp
  next
    case (Suc j')
    with that have "j' < k" by simp
    with ih have "td_next (td_mem (lp_hcd st') ! (Suc ?b + j')) =
                 (if j' = 0 then lp_link_td st1 else Some (Suc ?b + j' - 1))" by blast
    then show ?thesis using Suc r2(1) by auto
  qed
  have link: "lp_link_td st' = Some (?b + Suc k - 1)"
    using ih r2(1) by (auto split: if_splits)
  have lst: "lp_last_td st' = (if i = 0 then Some ?b else lp_last_td st)"
    using ih r2(2) by simp
  have rest: "uhci_qh_interrupt (lp_hcd st') = uhci_qh_interrupt (lp_hcd st)"
    "uhci_scheduled_items (lp_hcd st') = uhci_scheduled_items (lp_hcd st)"
    using ih r2(3,4) by simp_all
  show ?case using len pre chain link lst rest by simp
qed

lemma td_write_simps [simp]:
  "length (td_mem (td_write hcd p f)) = length (td_mem hcd)"
  "uhci_qh_interrupt (td_write hcd p f) = uhci_qh_interrupt hcd"
  "uhci_scheduled_items (td_write hcd p f) = uhci_scheduled_items hcd"
  by (simp_all add: td_write_def)

lemma td_write_nth:
  "p < length (td_mem hcd) \<Longrightarrow>
   td_mem (td_write hcd p f) ! q = (if q = p then f (td_mem hcd ! p) else td_mem hcd ! q)"
  by (simp add: td_write_def nth_list_update)

lemma CreateDataTDs_chain:
  assumes c: "CreateDataTDs hcd data sz mps tok ls ta None = Inr (Some chain, Some lastp, hcd1)"
  shows "\<exists>n. 0 < n \<and> lastp = length (td_mem hcd) \<and> chain = length (td_mem hcd) + n - 1 \<and>
           length (td_mem hcd1) = length (td_mem hcd) + n \<and>
           td_next (td_mem hcd1 ! length (td_mem hcd)) = None \<and>
           (\<forall>j. 0 < j \<and> j < n \<longrightarrow>
                td_next (td_mem hcd1 ! (length (td_mem hcd) + j)) =
                  Some (length (td_mem hcd) + j - 1)) \<and>
           uhci_qh_interrupt hcd1 = uhci_qh_interrupt hcd"
proof -
  let ?b = "length (td_mem hcd)"
  let ?n = "(sz + mps - 1) div mps"
  let ?st0 = "\<lparr>lp_hcd = hcd, lp_link_td = None, lp_data_token = (?n mod 2 = 1),
               lp_cur_data_ptr = data + sz, lp_last_td = None\<rparr>"
  from c obtain st' where
    l: "CreateDataTDs_loop ?n 0 sz mps tok ls ta ?st0 = Inr st'"
    and out: "lp_link_td st' = Some chain" "lp_last_td st' = Some lastp" "lp_hcd st' = hcd1"
    by (auto simp: CreateDataTDs_def Let_def split: sum.splits if_splits)
  from CreateDataTDs_loop_Inr [OF l]
  have p: "length (td_mem hcd1) = ?b + ?n"
    "\<forall>j<?n. td_next (td_mem hcd1 ! (?b + j)) = (if j = 0 then None else Some (?b + j - 1))"
    "Some chain = (if ?n = 0 then None else Some (?b + ?n - 1))"
    "Some lastp = (if 0 < ?n then Some ?b else None)"
    "uhci_qh_interrupt hcd1 = uhci_qh_interrupt hcd"
    by (simp_all add: out)
  from p(3) have n0: "0 < ?n" by (cases "?n = 0") simp_all
  from p(3,4) n0 have lc: "lastp = ?b" "chain = ?b + ?n - 1" by simp_all
  from p(2) n0 have nx0: "td_next (td_mem hcd1 ! ?b) = None"
    by (metis add.right_neutral)
  from p(2) have nxj: "\<forall>j. 0 < j \<and> j < ?n \<longrightarrow> td_next (td_mem hcd1 ! (?b + j)) = Some (?b + j - 1)"
    by simp
  from n0 lc p(1) nx0 nxj p(5) show ?thesis by blast
qed

lemma drop1_update0: "drop 1 (xs[0 := y]) = drop 1 xs"
  by (cases xs) simp_all

lemma interrupt_publish_Inr:
  assumes ok: "interrupt_publish hcd1 xfer lastp chain = Inr (Success, hcd')"
    and lb: "lastp < length (td_mem hcd1)" and lc: "chain < length (td_mem hcd1)"
  shows "length (td_mem hcd') = length (td_mem hcd1)"
    and "\<forall>q. td_next (td_mem hcd' ! q) = td_next (td_mem hcd1 ! q)"
    and "\<forall>q. td_buf (td_mem hcd' ! q) = td_buf (td_mem hcd1 ! q)"
    and "st_ioc (td_status (td_td (td_mem hcd' ! lastp)))"
    and "qh_first_td (uhci_qh_interrupt hcd' ! 0) = Some chain"
    and "qh_elementptr (qh_qh (uhci_qh_interrupt hcd' ! 0)) = td_buf (td_mem hcd' ! chain)"
    and "drop 1 (uhci_qh_interrupt hcd') = drop 1 (uhci_qh_interrupt hcd1)"
proof -
  let ?h2 = "td_write hcd1 lastp (\<lambda>td. td
            \<lparr>td_td := (td_td td)\<lparr>td_status := (td_status (td_td td))\<lparr>st_ioc := True\<rparr>\<rparr>\<rparr>)"
  let ?h3 = "td_write ?h2 chain (\<lambda>td. td
            \<lparr>td_td := (td_td td)\<lparr>td_token := (td_token (td_td td))\<lparr>tok_data := False\<rparr>\<rparr>\<rparr>)"
  from ok have qhs: "0 < length (uhci_qh_interrupt hcd1)"
    by (auto simp: interrupt_publish_def Let_def split: if_splits)
  from ok have mem: "td_mem hcd' = td_mem ?h3"
    by (auto simp: interrupt_publish_def Let_def split: if_splits)
  from ok have qh: "uhci_qh_interrupt hcd' = (uhci_qh_interrupt hcd1)
      [0 := (uhci_qh_interrupt hcd1 ! 0)
         \<lparr>qh_first_td := Some chain,
          qh_qh := (qh_qh (uhci_qh_interrupt hcd1 ! 0))
            \<lparr>qh_elementptr := td_buf (td_mem ?h3 ! chain)\<rparr>\<rparr>]"
    by (auto simp: interrupt_publish_def Let_def GetPhysicalAddress_def split: if_splits)
  have l2: "lastp < length (td_mem ?h2)" "chain < length (td_mem ?h2)" using lb lc by simp_all
  show "length (td_mem hcd') = length (td_mem hcd1)" by (simp add: mem)
  show "\<forall>q. td_next (td_mem hcd' ! q) = td_next (td_mem hcd1 ! q)"
    using lb l2 by (simp add: mem td_write_nth)
  show "\<forall>q. td_buf (td_mem hcd' ! q) = td_buf (td_mem hcd1 ! q)"
    using lb l2 by (simp add: mem td_write_nth)
  show "st_ioc (td_status (td_td (td_mem hcd' ! lastp)))"
    using lb l2 by (simp add: mem td_write_nth)
  show "qh_first_td (uhci_qh_interrupt hcd' ! 0) = Some chain"
    using qhs by (simp add: qh)
  show "qh_elementptr (qh_qh (uhci_qh_interrupt hcd' ! 0)) = td_buf (td_mem hcd' ! chain)"
    using qhs by (simp add: qh mem)
  show "drop 1 (uhci_qh_interrupt hcd') = drop 1 (uhci_qh_interrupt hcd1)"
    by (simp only: qh drop1_update0)
qed

text \<open>
  Claim C7, as amended. Whenever \<open>ScheduleInterruptTransfer\<close> schedules a transfer, it
  has made a chain of \<open>n > 0\<close> data descriptors; the last descriptor of the chain (the one
  whose next pointer is null) has interrupt-on-completion set, and the first descriptor
  of the chain is published in the element pointer of the interrupt queue head 0, the one
  with the period of 1 ms. The other interrupt queue heads are left as they were.
\<close>

theorem interrupt_transfer_ioc_and_first_qh:
  assumes ok: "ScheduleInterruptTransfer hcd xfer = Inr (Success, hcd')"
  shows "\<exists>n. 0 < n \<and>
           length (td_mem hcd') = length (td_mem hcd) + n \<and>
           td_next (td_mem hcd' ! length (td_mem hcd)) = None \<and>
           st_ioc (td_status (td_td (td_mem hcd' ! length (td_mem hcd)))) \<and>
           (\<forall>j. 0 < j \<and> j < n \<longrightarrow>
                td_next (td_mem hcd' ! (length (td_mem hcd) + j)) =
                  Some (length (td_mem hcd) + j - 1)) \<and>
           qh_first_td (uhci_qh_interrupt hcd' ! 0) = Some (length (td_mem hcd) + n - 1) \<and>
           qh_elementptr (qh_qh (uhci_qh_interrupt hcd' ! 0)) =
             td_buf (td_mem hcd' ! (length (td_mem hcd) + n - 1)) \<and>
           drop 1 (uhci_qh_interrupt hcd') = drop 1 (uhci_qh_interrupt hcd)"
proof -
  let ?b = "length (td_mem hcd)"
  from ok obtain chain lastp hcd1 where
    c: "CreateDataTDs hcd (t_data_phys xfer) (unat (t_length xfer))
          (ud_max_packet_sz0 (t_device xfer))
          (if xfer_isread xfer then TD_PID_IN else TD_PID_OUT) (xfer_ls xfer)
          (t_endpoint xfer, t_address xfer) None = Inr (Some chain, Some lastp, hcd1)"
    and pub: "interrupt_publish hcd1 xfer lastp chain = Inr (Success, hcd')"
    by (auto simp: ScheduleInterruptTransfer_def split: sum.splits prod.splits option.splits)
  from CreateDataTDs_chain [OF c] obtain n where
    n0: "0 < n" and lastp: "lastp = ?b" and chain: "chain = ?b + n - 1"
    and len1: "length (td_mem hcd1) = ?b + n"
    and nx0: "td_next (td_mem hcd1 ! ?b) = None"
    and nxj: "\<forall>j. 0 < j \<and> j < n \<longrightarrow> td_next (td_mem hcd1 ! (?b + j)) = Some (?b + j - 1)"
    and qh1: "uhci_qh_interrupt hcd1 = uhci_qh_interrupt hcd"
    by blast
  have lb: "lastp < length (td_mem hcd1)" and lc: "chain < length (td_mem hcd1)"
    using lastp chain len1 n0 by simp_all
  note q = interrupt_publish_Inr [OF pub lb lc]
  have "length (td_mem hcd') = ?b + n" using q(1) len1 by simp
  moreover have "td_next (td_mem hcd' ! ?b) = None" using q(2) nx0 by simp
  moreover have "st_ioc (td_status (td_td (td_mem hcd' ! ?b)))" using q(4) lastp by simp
  moreover have "\<forall>j. 0 < j \<and> j < n \<longrightarrow> td_next (td_mem hcd' ! (?b + j)) = Some (?b + j - 1)"
    using q(2) nxj by simp
  moreover have "qh_first_td (uhci_qh_interrupt hcd' ! 0) = Some (?b + n - 1)"
    using q(5) chain by simp
  moreover have "qh_elementptr (qh_qh (uhci_qh_interrupt hcd' ! 0)) = td_buf (td_mem hcd' ! (?b + n - 1))"
    using q(6) chain by simp
  moreover have "drop 1 (uhci_qh_interrupt hcd') = drop 1 (uhci_qh_interrupt hcd)"
    using q(7) qh1 by simp
  ultimately show ?thesis using n0 by blast
qed

lemmas uhci_eval =
  ScheduleControlTransfer_def ScheduleInterruptTransfer_def interrupt_publish_def
  CreateDataTDs_def CreateDataTDs_round_def AllocateTD_def GetPhysicalAddress_def td_write_def
  xfer_chunk_len_def xfer_ls_def xfer_isread_def zero_td_def hcd_attached_def xfer_of_def
  empty_qh_def TD_LINKPTR_T_def TD_LINKPTR_VF_def QH_PTR_T_def sizeof_USB_CONTROL_REQUEST_def
  spec_interrupt_qh_for_def spec_interrupt_qh_period_def hcd_interrupt12_def
  td_summary_def Let_def

lemma CreateDataTDs_loop_numeral:
  "CreateDataTDs_loop (numeral v) i sz mps tok ls ta st =
     (case CreateDataTDs_round sz mps tok ls ta i st of
        Inl h \<Rightarrow> Inl h
      | Inr st' \<Rightarrow> CreateDataTDs_loop (pred_numeral v) (Suc i) sz mps tok ls ta st')"
  by (simp add: numeral_eq_Suc)

lemma CreateDataTDs_loop_1:
  "CreateDataTDs_loop 1 i sz mps tok ls ta st =
     (case CreateDataTDs_round sz mps tok ls ta i st of
        Inl h \<Rightarrow> Inl h
      | Inr st' \<Rightarrow> Inr st')"
  by (simp add: sum.case_eq_if)

text \<open>
  Claim C3 at its failing input: a control read of 16 bytes from a device whose packets
  hold 8 bytes. \<open>CreateDataTDs\<close> makes two descriptors, of 0 and of 8 bytes, and stops
  at its own assertion that the chunks cover the buffer.
\<close>

theorem control_transfer_multiple_of_packet_size_panics:
  "ScheduleControlTransfer hcd_attached (xfer_of {TRANSFER_FLAG_READ, TRANSFER_FLAG_DATA} 16) =
     Inl (Panic ''bug'')"
  by (simp add: uhci_eval CreateDataTDs_loop_numeral CreateDataTDs_loop_1)

text \<open>
  Where the length is not such a multiple the chain is the claimed one. A control read
  of one byte gives, in the order of the links from the descriptor the control queue head
  points at: SETUP (DATA0, 8 bytes, the control request), one IN descriptor (DATA1, 1
  byte), and the handshake (OUT, DATA1, interrupt-on-completion, terminator).
\<close>

lemma control_read_one_byte:
  "\<exists>hcd'. ScheduleControlTransfer hcd_attached
             (xfer_of {TRANSFER_FLAG_READ, TRANSFER_FLAG_DATA} 1) = Inr (Success, hcd') \<and>
      map td_summary (td_mem hcd') =
        [(Some TD_PID_OUT, True, None, True, 0, 1, None),
         (Some TD_PID_IN, True, Some 1, False, 0x2000, 0x1004, Some 0),
         (Some TD_PID_SETUP, False, Some 8, False, 0x3000, 0x1024, Some 1)] \<and>
      map si_td (uhci_scheduled_items hcd') = [2] \<and>
      qh_first_td (uhci_qh_ls_control hcd') = Some 2 \<and>
      qh_elementptr (qh_qh (uhci_qh_ls_control hcd')) = 0x1040"
  by (simp add: uhci_eval CreateDataTDs_loop_numeral CreateDataTDs_loop_1)

text \<open>A control read of 18 bytes: the data descriptors hold 8, 8 and 2 bytes with the
  toggles DATA1, DATA0, DATA1.\<close>

lemma control_read_18_bytes:
  "\<exists>hcd'. ScheduleControlTransfer hcd_attached
             (xfer_of {TRANSFER_FLAG_READ, TRANSFER_FLAG_DATA} 18) = Inr (Success, hcd') \<and>
      map td_summary (td_mem hcd') =
        [(Some TD_PID_OUT, True, None, True, 0, 1, None),
         (Some TD_PID_IN, True, Some 2, False, 0x2010, 0x1004, Some 0),
         (Some TD_PID_IN, False, Some 8, False, 0x2008, 0x1024, Some 1),
         (Some TD_PID_IN, True, Some 8, False, 0x2000, 0x1044, Some 2),
         (Some TD_PID_SETUP, False, Some 8, False, 0x3000, 0x1064, Some 3)] \<and>
      map si_td (uhci_scheduled_items hcd') = [4] \<and>
      qh_first_td (uhci_qh_ls_control hcd') = Some 4"
  by (simp add: uhci_eval CreateDataTDs_loop_numeral CreateDataTDs_loop_1)

text \<open>
  An interrupt transfer of 12 bytes: two descriptors, the first of the chain in slot 1 and
  the last in slot 0, published in queue head 0.
\<close>

lemma hcd_interrupt12_scheduled:
  "ScheduleInterruptTransfer hcd_attached (xfer_of {TRANSFER_FLAG_READ} 12) =
     Inr (Success, hcd_interrupt12)"
  by (simp add: uhci_eval CreateDataTDs_loop_numeral CreateDataTDs_loop_1)

theorem interrupt_transfer_ioc_and_first_qh_witness:
  "ScheduleInterruptTransfer hcd_attached (xfer_of {TRANSFER_FLAG_READ} 12) =
     Inr (Success, hcd_interrupt12) \<and>
   length (td_mem hcd_attached) = 0 \<and> length (td_mem hcd_interrupt12) = 2 \<and>
   td_next (td_mem hcd_interrupt12 ! 0) = None \<and>
   st_ioc (td_status (td_td (td_mem hcd_interrupt12 ! 0))) \<and>
   td_next (td_mem hcd_interrupt12 ! 1) = Some 0 \<and>
   qh_first_td (uhci_qh_interrupt hcd_interrupt12 ! 0) = Some 1 \<and>
   qh_elementptr (qh_qh (uhci_qh_interrupt hcd_interrupt12 ! 0)) = 0x1020 \<and>
   td_buf (td_mem hcd_interrupt12 ! 1) = 0x1020 \<and>
   drop 1 (uhci_qh_interrupt hcd_interrupt12) = replicate 5 empty_qh"
  using interrupt_transfer_ioc_and_first_qh [OF hcd_interrupt12_scheduled]
  by (simp add: uhci_eval CreateDataTDs_loop_numeral CreateDataTDs_loop_1)

text \<open>
  Claim C7 as stated fails: for a transfer that asks for an interval of 8 ms the queue
  head with that period is number 3, and nothing is published there. The function reads
  no interval; its index is the constant 0.
\<close>

theorem interrupt_transfer_ignores_interval:
  "ScheduleInterruptTransfer hcd_attached (xfer_of {TRANSFER_FLAG_READ} 12) =
     Inr (Success, hcd_interrupt12) \<and>
   spec_interrupt_qh_for 8 = Some 3 \<and>
   qh_first_td (uhci_qh_interrupt hcd_interrupt12 ! 3) = None \<and>
   qh_elementptr (qh_qh (uhci_qh_interrupt hcd_interrupt12 ! 3)) = QH_PTR_T \<and>
   qh_first_td (uhci_qh_interrupt hcd_interrupt12 ! 0) = Some 1"
  by (simp add: uhci_eval CreateDataTDs_loop_numeral CreateDataTDs_loop_1)

section \<open>Page-fault handler\<close>

lemma read_data_short:
  assumes "length (vfs_read_bytes s dentry offset len) < len"
  shows "fst (read_data s dentry buf offset len) = SHORT_READ"
  using assms by (simp add: read_data_def Let_def)

lemma vfs_read_bytes_frame_free [simp]:
  "vfs_read_bytes (s\<lparr>frame_free := r\<rparr>) dentry offset len = vfs_read_bytes s dentry offset len"
  by (simp add: vfs_read_bytes_def)

text \<open>
  Claim C5, as amended. When the page to fill is Pending, a frame is free and the read of
  \<open>PAGE_SIZE\<close> bytes at \<open>read_off\<close> transfers fewer bytes, \<open>read_data\<close> reports
  \<open>SHORT_READ\<close> and the handler stops at its assertion with the panic ``cannot deal with
  error'': it returns no error code, and the frame is not attached nor Pending cleared.
\<close>

theorem short_read_panics:
  assumes pending: "VM_PAGE_FLAG_PENDING \<in> vp_flags (vmpages s ! vmpage)"
    and frame: "frame_free s = p # rest"
    and short: "length (vfs_read_bytes s dentry read_off PAGE_SIZE) < PAGE_SIZE"
  shows "fst (read_data (s\<lparr>frame_free := rest\<rparr>) dentry p read_off PAGE_SIZE) = SHORT_READ \<and>
         fault_fill_pending s dentry vmpage read_off = Inl (Panic ''cannot deal with error'')"
proof -
  have rd: "fst (read_data (s\<lparr>frame_free := rest\<rparr>) dentry p read_off PAGE_SIZE) = SHORT_READ"
    using short by (intro read_data_short) simp
  then have "fault_fill_pending s dentry vmpage read_off = Inl (Panic ''cannot deal with error'')"
    using pending frame
    by (cases "read_data (s\<lparr>frame_free := rest\<rparr>) dentry p read_off PAGE_SIZE")
      (simp add: fault_fill_pending_def page_alloc_single_def)
  with rd show ?thesis by simp
qed

lemma vmpage_set_simps [simp]:
  "length (vmpages (vmpage_set s vp f)) = length (vmpages s)"
  "vmareas (vmpage_set s vp f) = vmareas s"
  "frame_free (vmpage_set s vp f) = frame_free s"
  "frame_data (vmpage_set s vp f) = frame_data s"
  "page_table (vmpage_set s vp f) = page_table s"
  by (simp_all add: vmpage_set_def)

lemma vmpage_set_nth:
  "vp < length (vmpages s) \<Longrightarrow>
   vmpages (vmpage_set s vp f) ! q = (if q = vp then f (vmpages s ! vp) else vmpages s ! q)"
  by (simp add: vmpage_set_def nth_list_update)

lemma fault_map_shared_link:
  assumes vp: "vmpage < length (vmpages s)"
    and nolink: "vp_link (vmpages s ! vmpage) = None"
    and res: "vp_page (vmpages s ! vmpage) = Some p"
    and a: "a < length (vmareas s)"
    and whole: "fault_can_share s a read_off"
  shows "\<exists>s'. fault_map_shared s vs a vmpage v_page read_off = Inr (Success, s') \<and>
           va_pages (vmareas s' ! a) = va_pages (vmareas s ! a) @ [length (vmpages s)] \<and>
           vp_vaddr (vmpages s' ! length (vmpages s)) = v_page \<and>
           vp_link (vmpages s' ! length (vmpages s)) = Some vmpage \<and>
           vp_page (vmpages s' ! length (vmpages s)) = None \<and>
           vmpage_get_page s' (length (vmpages s)) = Some p \<and>
           vp_refcount (vmpages s' ! vmpage) = vp_refcount (vmpages s ! vmpage) + 1 \<and>
           frame_free s' = frame_free s \<and> frame_data s' = frame_data s \<and>
           page_table s' (vs, v_page) = Some (page_get_paddr p, va_flags (vmareas s ! a))"
  using assms
  by (simp add: fault_map_shared_def fault_new_page_def fault_attach_def vmpage_link_def
      vmpage_unlock_def vmpage_get_page_def md_map_pages_def vmpage_set_def Let_def
      nth_append nth_list_update)

lemma fault_map_shared_copy:
  assumes vp: "vmpage < length (vmpages s)"
    and nolink: "vp_link (vmpages s ! vmpage) = None"
    and res: "vp_page (vmpages s ! vmpage) = Some p"
    and a: "a < length (vmareas s)"
    and part: "\<not> fault_can_share s a read_off"
    and frame: "frame_free s = q # rest"
  shows "\<exists>s'. fault_map_shared s vs a vmpage v_page read_off = Inr (Success, s') \<and>
           va_pages (vmareas s' ! a) = va_pages (vmareas s ! a) @ [length (vmpages s)] \<and>
           vp_vaddr (vmpages s' ! length (vmpages s)) = v_page \<and>
           vp_link (vmpages s' ! length (vmpages s)) = None \<and>
           vp_page (vmpages s' ! length (vmpages s)) = Some q \<and>
           VM_PAGE_FLAG_PRIVATE \<in> vp_flags (vmpages s' ! length (vmpages s)) \<and>
           frame_free s' = rest \<and> frame_data s' q = frame_data s p \<and>
           page_table s' (vs, v_page) = Some (page_get_paddr q, va_flags (vmareas s ! a))"
  using assms
  by (simp add: fault_map_shared_def fault_new_page_def fault_attach_def vmpage_create_private_def
      page_alloc_single_def vmpage_copy_def
      vmpage_unlock_def vmpage_get_page_def md_map_pages_def vmpage_set_def Let_def
      nth_append nth_list_update)

text \<open>
  Claim C2. At line 100 of the handler, with the shared page resident (it has a frame
  \<open>p\<close>, Pending being clear): when the whole page lies in the backed slice and the area
  is not Private, the new page is a link to the shared page, so it has the frame \<open>p\<close>,
  and no frame is allocated or written; otherwise the new page is private, owns the next
  free frame, and that frame holds a copy of the contents of \<open>p\<close>. In both cases the
  new page is appended to the pages of the area, its \<open>vp_vaddr\<close> is the page address
  handed down, and that address is mapped to the frame of the new page with the flags of
  the area.
\<close>

theorem fault_shares_or_copies:
  assumes vp: "vmpage < length (vmpages s)"
    and nolink: "vp_link (vmpages s ! vmpage) = None"
    and res: "vp_page (vmpages s ! vmpage) = Some p"
    and a: "a < length (vmareas s)"
    and frame: "fault_can_share s a read_off \<or> frame_free s \<noteq> []"
  shows "\<exists>s'. fault_map_shared s vs a vmpage v_page read_off = Inr (Success, s') \<and>
           va_pages (vmareas s' ! a) = va_pages (vmareas s ! a) @ [length (vmpages s)] \<and>
           vp_vaddr (vmpages s' ! length (vmpages s)) = v_page \<and>
           (if fault_can_share s a read_off
            then vp_link (vmpages s' ! length (vmpages s)) = Some vmpage \<and>
                 vp_page (vmpages s' ! length (vmpages s)) = None \<and>
                 vmpage_get_page s' (length (vmpages s)) = Some p \<and>
                 vp_refcount (vmpages s' ! vmpage) = vp_refcount (vmpages s ! vmpage) + 1 \<and>
                 frame_free s' = frame_free s \<and> frame_data s' = frame_data s \<and>
                 page_table s' (vs, v_page) = Some (page_get_paddr p, va_flags (vmareas s ! a))
            else vp_link (vmpages s' ! length (vmpages s)) = None \<and>
                 vp_page (vmpages s' ! length (vmpages s)) = Some (hd (frame_free s)) \<and>
                 VM_PAGE_FLAG_PRIVATE \<in> vp_flags (vmpages s' ! length (vmpages s)) \<and>
                 frame_free s' = tl (frame_free s) \<and>
                 frame_data s' (hd (frame_free s)) = frame_data s p \<and>
                 page_table s' (vs, v_page) =
                   Some (page_get_paddr (hd (frame_free s)), va_flags (vmareas s ! a)))"
proof (cases "fault_can_share s a read_off")
  case True
  from fault_map_shared_link [OF vp nolink res a True, of vs v_page] True
  show ?thesis by auto
next
  case False
  with frame obtain q rest where f: "frame_free s = q # rest" by (cases "frame_free s") auto
  from fault_map_shared_copy [OF vp nolink res a False f, of vs v_page] False f
  show ?thesis by auto
qed

text \<open>The page address handed down is the fault address rounded down to a page.\<close>

lemma fault_in_area_file_backed:
  assumes "va_flags (vmareas s ! a) \<inter> {VM_FLAG_ALLOC, VM_FLAG_LAZY} \<noteq> {}"
    and "va_dentry (vmareas s ! a) = Some dentry"
    and "int (virt - virt mod PAGE_SIZE) - int (va_virt (vmareas s ! a)) < int (va_dlength (vmareas s ! a))"
  shows "fault_in_area s vs a virt =
           fault_file_backed s vs a dentry (virt - virt mod PAGE_SIZE)
             (int (virt - virt mod PAGE_SIZE) - int (va_virt (vmareas s ! a)) +
              int (va_doffset (vmareas s ! a)))"
  using assms by (auto simp: fault_in_area_def Let_def)

lemmas vm_eval =
  vmspace_handle_fault_def fault_in_area_def fault_file_backed_def fault_fill_pending_def
  fault_map_shared_def fault_new_page_def fault_can_share_def fault_attach_def
  fault_anonymous_def vmpage_lookup_locked_def vmpage_create_shared_def vmpage_link_def
  vmpage_create_private_def page_alloc_single_def vmpage_get_page_def vmpage_copy_def
  vmpage_unlock_def vmpage_set_def page_get_paddr_def md_map_pages_def read_data_def
  vfs_read_bytes_def vmspace_page_flags_from_va_def PAGE_SIZE_def vm_area_of_def vm_boot_def
  vm_first_def vm_line100_def vm_second_def vm_short_def vm_short_pending_def Let_def

lemma vm_first_fault:
  "vmspace_handle_fault vm_boot 1 0x40000000 = Inr (Success, vm_first)"
  by (simp add: vm_eval)

lemma vm_second_fault:
  "vmspace_handle_fault vm_first 2 0x40000000 = Inr (Success, vm_second)"
  by (simp add: vm_eval)

text \<open>
  The scenario: address space 1 faults at 0x40000000, which reads the page into frame
  10; the fault of address space 2 on the same page finds the shared page and maps the
  same frame (physical address 40960); the private area of address space 3 gets the
  frame 11 with a copy of the contents.
\<close>

theorem fault_shares_or_copies_witness:
  "0 < length (vmpages vm_line100) \<and> vp_link (vmpages vm_line100 ! 0) = None \<and>
   vp_page (vmpages vm_line100 ! 0) = Some 10 \<and> 1 < length (vmareas vm_line100) \<and>
   2 < length (vmareas vm_line100) \<and> length (vmpages vm_line100) = 2 \<and>
   fault_can_share vm_line100 1 0 \<and> \<not> fault_can_share vm_line100 2 0 \<and>
   frame_free vm_line100 = [11, 12, 13] \<and>
   vmspace_handle_fault vm_boot 1 0x40000000 = Inr (Success, vm_first) \<and>
   vmspace_handle_fault vm_first 2 0x40000000 = Inr (Success, vm_second) \<and>
   fault_map_shared vm_line100 2 1 0 0x40000000 0 = Inr (Success, vm_second) \<and>
   page_table vm_second (1, 0x40000000) =
     Some (40960, {VM_FLAG_READ, VM_FLAG_USER, VM_FLAG_LAZY}) \<and>
   page_table vm_second (2, 0x40000000) =
     Some (40960, {VM_FLAG_READ, VM_FLAG_USER, VM_FLAG_LAZY}) \<and>
   va_pages (vmareas vm_second ! 1) = [2] \<and> vp_vaddr (vmpages vm_second ! 2) = 0x40000000 \<and>
   vmpage_get_page vm_second 2 = Some 10 \<and>
   frame_data vm_second 10 = replicate 4096 0x41 \<and>
   (\<exists>s'. fault_map_shared vm_line100 3 2 0 0x40000000 0 = Inr (Success, s') \<and>
      va_pages (vmareas s' ! 2) = [2] \<and> vp_page (vmpages s' ! 2) = Some 11 \<and>
      frame_data s' 11 = replicate 4096 0x41 \<and>
      page_table s' (3, 0x40000000) =
        Some (45056, {VM_FLAG_READ, VM_FLAG_USER, VM_FLAG_LAZY, VM_FLAG_PRIVATE}))"
proof -
  have pre: "0 < length (vmpages vm_line100)" "vp_link (vmpages vm_line100 ! 0) = None"
    "vp_page (vmpages vm_line100 ! 0) = Some 10" "1 < length (vmareas vm_line100)"
    "2 < length (vmareas vm_line100)"
    by (simp_all add: vm_eval)
  have sh: "fault_can_share vm_line100 1 0" and nsh: "\<not> fault_can_share vm_line100 2 0"
    and fr: "frame_free vm_line100 = [11, 12, 13]" and ln: "length (vmpages vm_line100) = 2"
    by (simp_all add: vm_eval)
  have share: "fault_can_share vm_line100 1 0 \<or> frame_free vm_line100 \<noteq> []" using sh by simp
  have copy: "fault_can_share vm_line100 2 0 \<or> frame_free vm_line100 \<noteq> []" using fr by simp
  have run: "fault_map_shared vm_line100 2 1 0 0x40000000 0 = Inr (Success, vm_second)"
    by (simp add: vm_eval)
  have second: "page_table vm_second (1, 0x40000000) =
      Some (40960, {VM_FLAG_READ, VM_FLAG_USER, VM_FLAG_LAZY})"
    "page_table vm_second (2, 0x40000000) =
      Some (40960, {VM_FLAG_READ, VM_FLAG_USER, VM_FLAG_LAZY})"
    "va_pages (vmareas vm_second ! 1) = [2]" "vp_vaddr (vmpages vm_second ! 2) = 0x40000000"
    "vmpage_get_page vm_second 2 = Some 10" "frame_data vm_second 10 = replicate 4096 0x41"
    by (simp_all add: vm_eval)
  have priv: "\<exists>s'. fault_map_shared vm_line100 3 2 0 0x40000000 0 = Inr (Success, s') \<and>
      va_pages (vmareas s' ! 2) = [2] \<and> vp_page (vmpages s' ! 2) = Some 11 \<and>
      frame_data s' 11 = replicate 4096 0x41 \<and>
      page_table s' (3, 0x40000000) =
        Some (45056, {VM_FLAG_READ, VM_FLAG_USER, VM_FLAG_LAZY, VM_FLAG_PRIVATE})"
    using fault_shares_or_copies [OF pre(1,2,3,5) copy, of 3 "0x40000000"] nsh fr ln
    by (simp add: vm_eval)
  show ?thesis
    using fault_shares_or_copies [OF pre(1,2,3,4) share, of 2 "0x40000000"]
      pre sh nsh fr ln vm_first_fault vm_second_fault run second priv
    by simp
qed

text \<open>A file of 100 bytes behind the first page of the area.\<close>

theorem short_read_panics_witness:
  "VM_PAGE_FLAG_PENDING \<in> vp_flags (vmpages vm_short_pending ! 0) \<and>
   frame_free vm_short_pending = 10 # [11, 12, 13] \<and>
   length (vfs_read_bytes vm_short_pending 5 0 PAGE_SIZE) = 100 \<and> 100 < PAGE_SIZE \<and>
   fst (read_data (vm_short_pending\<lparr>frame_free := [11, 12, 13]\<rparr>) 5 10 0 PAGE_SIZE) = SHORT_READ \<and>
   fault_fill_pending vm_short_pending 5 0 0 = Inl (Panic ''cannot deal with error'')"
proof -
  have p: "VM_PAGE_FLAG_PENDING \<in> vp_flags (vmpages vm_short_pending ! 0)"
    and f: "frame_free vm_short_pending = 10 # [11, 12, 13]"
    and l: "length (vfs_read_bytes vm_short_pending 5 0 PAGE_SIZE) = 100"
    and c: "100 < PAGE_SIZE"
    by (simp_all add: vm_eval)
  from l c have s: "length (vfs_read_bytes vm_short_pending 5 0 PAGE_SIZE) < PAGE_SIZE" by simp
  from short_read_panics [OF p f s] p f l c show ?thesis by simp
qed

text \<open>
  Claim C5 as stated fails: on the file of 100 bytes the handler does not return
  \<open>SHORT_READ\<close>, it halts.
\<close>

theorem short_read_is_not_returned:
  "vmspace_handle_fault vm_short 1 0x40000000 = Inl (Panic ''cannot deal with error'') \<and>
   length (vfs_read_bytes vm_short 5 0 PAGE_SIZE) = 100 \<and>
   fst (read_data (vm_short_pending\<lparr>frame_free := [11, 12, 13]\<rparr>) 5 10 0 PAGE_SIZE) = SHORT_READ"
  by (simp add: vm_eval)

end
